theory Spec2Isabelle
  imports Complex_Main "HOL-Library.Char_ord" "HOL-Library.List_Lexorder"
begin

section \<open>Med Interaction Map: data model of the frontend\<close>

text \<open>
  Strings are byte strings (\<open>string\<close>, ordered bytewise and lexicographically by
  \<open>Char_ord\<close> and \<open>List_Lexorder\<close>). For the identifiers RxNorm hands out (decimal
  digits) and for every ASCII string this is the order JavaScript's relational operators
  and the default \<open>Array.prototype.sort\<close> use on UTF-16 code units.
\<close>

datatype CanonicalType = Drug | Supplement | Food

text \<open>The union's members are strings at run time and on the wire.\<close>

fun typeName :: "CanonicalType \<Rightarrow> string" where
  "typeName Drug = ''Drug''"
| "typeName Supplement = ''Supplement''"
| "typeName Food = ''Food''"

text \<open>
  \<open>type CanonicalItem = { id; display; type; rxCui?; unii? }\<close>. The fields \<open>id\<close> and
  \<open>type\<close> carry a suffix, since \<open>id\<close> is the identity function of HOL.
\<close>

record CanonicalItem =
  id_c :: string
  display :: string
  type_c :: CanonicalType
  rxCui :: "string option"
  unii :: "string option"

text \<open>
  An element of \<open>pairList\<close>: \<open>{ key: string; a: CanonicalItem; b: CanonicalItem }\<close>.
  The suffix leaves \<open>a\<close> and \<open>b\<close> free for variables.
\<close>

record pair =
  key_p :: string
  a_p :: CanonicalItem
  b_p :: CanonicalItem

section \<open>Pair Set Builder\<close>

text \<open>
  \<open>Array.prototype.sort(cmp)\<close> is stable, and for a consistent comparator it returns the
  sorted permutation; insertion from the right computes exactly that list. An element
  goes in front of the first element it does not compare greater than.
\<close>

fun insort_cmp :: "('a \<Rightarrow> 'a \<Rightarrow> int) \<Rightarrow> 'a \<Rightarrow> 'a list \<Rightarrow> 'a list" where
  "insort_cmp c x [] = [x]"
| "insort_cmp c x (y # ys) = (if c x y \<le> 0 then x # y # ys else y # insort_cmp c x ys)"

definition array_sort :: "('a \<Rightarrow> 'a \<Rightarrow> int) \<Rightarrow> 'a list \<Rightarrow> 'a list" where
  "array_sort c xs = foldr (insort_cmp c) xs []"

text \<open>
  \<open>gridItems = [...selected].sort((a, b) => a.display.localeCompare(b.display))\<close>.
  \<open>String.prototype.localeCompare\<close> is the host's collation, so it is a parameter
  \<open>lc\<close> of the model: \<open>lc x y\<close> is negative, zero or positive.
\<close>

definition gridItems :: "(string \<Rightarrow> string \<Rightarrow> int) \<Rightarrow> CanonicalItem list \<Rightarrow> CanonicalItem list" where
  "gridItems lc selected = array_sort (\<lambda>x y. lc (display x) (display y)) selected"

text \<open>
  A concrete collation for evaluating examples: the ordinal one, which compares code
  units. Every collation agrees with it on equal strings (both return 0).
\<close>

definition ordinalCompare :: "string \<Rightarrow> string \<Rightarrow> int" where
  "ordinalCompare x y = (if x < y then - 1 else if y < x then 1 else 0)"

text \<open>
  What the ECMAScript specification asks of a comparator for the result of \<open>sort\<close> to
  be defined: it is total and transitive. Two strings tie when neither sorts after
  the other.
\<close>

definition consistent :: "(string \<Rightarrow> string \<Rightarrow> int) \<Rightarrow> bool" where
  "consistent lc =
     ((\<forall>x y. lc x y \<le> 0 \<or> lc y x \<le> 0) \<and> (\<forall>x y z. lc x y \<le> 0 \<and> lc y z \<le> 0 \<longrightarrow> lc x z \<le> 0))"

definition tie :: "(string \<Rightarrow> string \<Rightarrow> int) \<Rightarrow> string \<Rightarrow> string \<Rightarrow> bool" where
  "tie lc x y = (lc x y \<le> 0 \<and> lc y x \<le> 0)"

text \<open>The template literal \<open>`${a.id}|${b.id}`\<close> and the element pushed to \<open>out\<close>.\<close>

definition mkPair :: "CanonicalItem \<Rightarrow> CanonicalItem \<Rightarrow> pair" where
  "mkPair x y = \<lparr> key_p = id_c x @ ''|'' @ id_c y, a_p = x, b_p = y \<rparr>"

text \<open>
  The nested loops of \<open>pairList\<close>, as written: \<open>j\<close> runs from \<open>i + 1\<close>, \<open>i\<close> from 0,
  and \<open>out\<close> grows at its end.
\<close>

function pairList_inner :: "CanonicalItem list \<Rightarrow> nat \<Rightarrow> nat \<Rightarrow> pair list \<Rightarrow> pair list" where
  "pairList_inner g i j out =
     (if j < length g then pairList_inner g i (j + 1) (out @ [mkPair (g ! i) (g ! j)]) else out)"
  by pat_completeness auto
termination
  by (relation "measure (\<lambda>(g, i, j, out). length g - j)") auto

function pairList_outer :: "CanonicalItem list \<Rightarrow> nat \<Rightarrow> pair list \<Rightarrow> pair list" where
  "pairList_outer g i out =
     (if i < length g then pairList_outer g (i + 1) (pairList_inner g i (i + 1) out) else out)"
  by pat_completeness auto
termination
  by (relation "measure (\<lambda>(g, i, out). length g - i)") auto

declare pairList_inner.simps [simp del] pairList_outer.simps [simp del]

definition pairList :: "CanonicalItem list \<Rightarrow> pair list" where
  "pairList g = pairList_outer g 0 []"

text \<open>
  What the loops compute, by recursion on the list: the first item paired with every
  later one, then the pairs of the rest (\<open>pairList_allPairs\<close> below).
\<close>

fun allPairs :: "CanonicalItem list \<Rightarrow> pair list" where
  "allPairs [] = []"
| "allPairs (x # xs) = map (mkPair x) xs @ allPairs xs"

text \<open>\<open>Array.prototype.join\<close> on an array of strings.\<close>

fun join :: "string \<Rightarrow> string list \<Rightarrow> string" where
  "join sep [] = []"
| "join sep [x] = x"
| "join sep (x # y # ys) = x @ sep @ join sep (y # ys)"

text \<open>
  The key of a matrix cell: \<open>[row.id, col.id].sort().join("|")\<close>. The default sort
  of two strings swaps them exactly when the second is smaller than the first.
\<close>

definition sort2 :: "string \<Rightarrow> string \<Rightarrow> string list" where
  "sort2 x y = (if y < x then [y, x] else [x, y])"

definition cellKey :: "CanonicalItem \<Rightarrow> CanonicalItem \<Rightarrow> string" where
  "cellKey row col = join ''|'' (sort2 (id_c row) (id_c col))"


text \<open>
  The dependency of the refresh effect: \<open>pairList.map(p => p.key).join(",")\<close>.
\<close>

definition depKey :: "pair list \<Rightarrow> string" where
  "depKey pl = join '','' (map key_p pl)"

section \<open>JSON values and the two API clients\<close>

text \<open>
  What \<open>res.json()\<close> can return. An object keeps its members in order; a repeated
  name reads as its last occurrence, as \<open>JSON.parse\<close> has it. Of a number the code only
  ever asks whether it is zero.
\<close>

datatype json =
  JNull | JBool bool | JNum rat | JStr string | JArr "json list" | JObj "(string \<times> json) list"

text \<open>JavaScript's \<open>ToBoolean\<close> on a parsed value.\<close>

fun truthy :: "json \<Rightarrow> bool" where
  "truthy JNull = False"
| "truthy (JBool b) = b"
| "truthy (JNum n) = (n \<noteq> 0)"
| "truthy (JStr s) = (s \<noteq> [])"
| "truthy (JArr xs) = True"
| "truthy (JObj kvs) = True"

text \<open>
  Reading a member \<open>v.k\<close> of a value other than \<open>null\<close>, for the member names the code
  reads (\<open>canonical\<close>, \<open>severity\<close>): \<open>None\<close> is \<open>undefined\<close>. Reading a member of
  \<open>null\<close> throws; the callers below write that case out.
\<close>

fun getProp :: "json \<Rightarrow> string \<Rightarrow> json option" where
  "getProp (JObj kvs) k = map_of (rev kvs) k"
| "getProp v k = None"

datatype body = Unparseable | Parsed json

text \<open>
  How a \<open>fetch\<close> ends: its promise rejects, or it resolves to a response with a status
  and a body; \<open>res.ok\<close> is a status from 200 to 299.
\<close>

datatype fetch_result = Rejected | Response nat body

definition ok :: "nat \<Rightarrow> bool" where
  "ok st = (200 \<le> st \<and> st \<le> 299)"

datatype js_error = NetworkError | HttpError string nat | SyntaxError | TypeError

text \<open>
  \<open>apiNormalize\<close> and \<open>apiInteraction\<close> from the point where their \<open>fetch\<close> has ended.
  \<open>Inl\<close> is a thrown error. \<open>json.canonical\<close> throws a TypeError on \<open>null\<close>;
  \<open>json && json.severity\<close> does not. An error thrown while the request is built
  takes the path of a rejected fetch.
\<close>

definition apiNormalize :: "fetch_result \<Rightarrow> js_error + json list" where
  "apiNormalize fr =
     (case fr of
        Rejected \<Rightarrow> Inl NetworkError
      | Response st b \<Rightarrow>
          if \<not> ok st then Inl (HttpError ''normalize'' st)
          else (case b of
                  Unparseable \<Rightarrow> Inl SyntaxError
                | Parsed j \<Rightarrow>
                    (case j of
                       JNull \<Rightarrow> Inl TypeError
                     | _ \<Rightarrow> (case getProp j ''canonical'' of
                               Some (JArr xs) \<Rightarrow> Inr xs
                             | _ \<Rightarrow> Inr []))))"

definition hasSeverity :: "json \<Rightarrow> bool" where
  "hasSeverity j = (truthy j \<and> (case getProp j ''severity'' of Some v \<Rightarrow> truthy v | None \<Rightarrow> False))"

definition apiInteraction :: "fetch_result \<Rightarrow> js_error + json option" where
  "apiInteraction fr =
     (case fr of
        Rejected \<Rightarrow> Inl NetworkError
      | Response st b \<Rightarrow>
          if \<not> ok st then Inl (HttpError ''interactions'' st)
          else (case b of
                  Unparseable \<Rightarrow> Inl SyntaxError
                | Parsed j \<Rightarrow> if hasSeverity j then Inr (Some j) else Inr None))"

section \<open>The component's state\<close>

text \<open>
  One run of the refresh effect: the pair list its closure holds, its own \<open>cancelled\<close>
  flag, one slot per promise handed to \<open>Promise.all\<close> (\<open>None\<close> while pending, then the
  entry \<open>[p.key, rec]\<close>), and whether the code after the \<open>await\<close> has run (or the run
  returned before it). The position of a run in \<open>effects\<close> is its generation.
\<close>

record effect =
  e_pairList :: "pair list"
  cancelled :: bool
  settled :: "(string \<times> json option) option list"
  resumed :: bool

text \<open>
  The \<open>useState\<close> cells the modelled code touches, the effect runs, the dependency
  string of the last run, the arguments of every \<open>apiInteraction\<close> call, and what went
  to \<open>console.error\<close>. A cached \<open>null\<close> is \<open>Some None\<close>; an absent key is \<open>None\<close>.
\<close>

record state =
  query :: string
  suggestions :: "json list"
  selected :: "CanonicalItem list"
  loadingQuery :: bool
  loadingPairs :: bool
  pairs :: "string \<rightharpoonup> json option"
  effects :: "effect list"
  deps :: string
  calls :: "(string \<times> string) list"
  console :: "js_error list"

section \<open>Debounced search\<close>









section \<open>Selection state\<close>

definition addItem :: "CanonicalItem \<Rightarrow> state \<Rightarrow> state" where
  "addItem i s =
     (if list_ex (\<lambda>x. id_c x = id_c i) (selected s) then s
      else s\<lparr>selected := selected s @ [i], query := [], suggestions := []\<rparr>)"

definition removeItem :: "string \<Rightarrow> state \<Rightarrow> state" where
  "removeItem ident s = s\<lparr>selected := filter (\<lambda>p. id_c p \<noteq> ident) (selected s)\<rparr>"

section \<open>Interaction cache and refresh coordinator\<close>

text \<open>\<open>Object.fromEntries\<close>: a later entry replaces an earlier one of the same key.\<close>

definition fromEntries :: "(string \<times> 'v) list \<Rightarrow> (string \<rightharpoonup> 'v)" where
  "fromEntries es = fold (\<lambda>kv m. m(fst kv \<mapsto> snd kv)) es Map.empty"

text \<open>
  The arrow function mapped over \<open>pairList\<close>, from the point where the fetch of its
  \<open>apiInteraction\<close> call has ended: the entry it returns, and what its \<open>catch\<close> logs.
\<close>

definition lookupEntry :: "pair \<Rightarrow> fetch_result \<Rightarrow> string \<times> json option" where
  "lookupEntry p fr =
     (case apiInteraction fr of
        Inr rec \<Rightarrow> (key_p p, rec)
      | Inl e \<Rightarrow> (key_p p, None))"

definition lookupLog :: "fetch_result \<Rightarrow> js_error list" where
  "lookupLog fr = (case apiInteraction fr of Inr rec \<Rightarrow> [] | Inl e \<Rightarrow> [e])"

text \<open>
  The body of the refresh effect up to its \<open>await\<close>. With an empty pair list it sets
  the cache to \<open>{}\<close> and returns; otherwise it sets \<open>loadingPairs\<close> and calls
  \<open>apiInteraction(p.a.display, p.b.display)\<close> for every pair.
\<close>

definition runEffect :: "pair list \<Rightarrow> state \<Rightarrow> state" where
  "runEffect pl s =
     (if length pl = 0
      then s\<lparr>pairs := Map.empty,
             effects := effects s @
               [\<lparr>e_pairList = pl, cancelled = False, settled = [], resumed = True\<rparr>]\<rparr>
      else s\<lparr>loadingPairs := True,
             calls := calls s @ map (\<lambda>p. (display (a_p p), display (b_p p))) pl,
             effects := effects s @
               [\<lparr>e_pairList = pl, cancelled = False,
                 settled = replicate (length pl) None, resumed = False\<rparr>]\<rparr>)"

text \<open>The effect's cleanup, \<open>() => { cancelled = true; }\<close>, of the latest run.\<close>

definition cleanup :: "state \<Rightarrow> state" where
  "cleanup s =
     (let g = length (effects s) - 1
      in s\<lparr>effects := (effects s)[g := (effects s ! g)\<lparr>cancelled := True\<rparr>]\<rparr>)"

text \<open>
  A render after the selection changed: \<open>gridItems\<close> and \<open>pairList\<close> are recomputed,
  and when the dependency string differs from the last run's, React runs the cleanup
  of that run and then the effect again.
\<close>

definition render :: "(string \<Rightarrow> string \<Rightarrow> int) \<Rightarrow> state \<Rightarrow> state" where
  "render lc s =
     (let pl = pairList (gridItems lc (selected s)); d = depKey pl
      in if d = deps s then s else runEffect pl ((cleanup s)\<lparr>deps := d\<rparr>))"

text \<open>
  One promise of a run settles: its slot takes the entry. The continuation after
  \<open>await Promise.all(...)\<close> runs once every slot is filled: it replaces the cache and
  clears \<open>loadingPairs\<close>, both only if the run's \<open>cancelled\<close> is still false.
\<close>

definition lookupSettles :: "nat \<Rightarrow> nat \<Rightarrow> fetch_result \<Rightarrow> state \<Rightarrow> state" where
  "lookupSettles g k fr s =
     (if g < length (effects s) \<and> k < length (settled (effects s ! g))
         \<and> k < length (e_pairList (effects s ! g)) \<and> settled (effects s ! g) ! k = None
      then (let e = effects s ! g
            in s\<lparr>effects := (effects s)
                    [g := e\<lparr>settled := (settled e)[k := Some (lookupEntry (e_pairList e ! k) fr)]\<rparr>],
                  console := console s @ lookupLog fr\<rparr>)
      else s)"

definition resume :: "nat \<Rightarrow> state \<Rightarrow> state" where
  "resume g s =
     (if g < length (effects s) \<and> \<not> resumed (effects s ! g)
         \<and> list_all (\<lambda>r. r \<noteq> None) (settled (effects s ! g))
      then (let e = effects s ! g;
                entries = List.map_filter (\<lambda>r. r) (settled e);
                s1 = (if \<not> cancelled e then s\<lparr>pairs := fromEntries entries\<rparr> else s);
                s2 = (if \<not> cancelled e then s1\<lparr>loadingPairs := False\<rparr> else s1)
            in s2\<lparr>effects := (effects s2)[g := e\<lparr>resumed := True\<rparr>]\<rparr>)
      else s)"

text \<open>
  What can happen to a mounted component: the user adds or removes an item, a lookup
  of some generation settles, the continuation of some generation runs.
\<close>

datatype event =
  AddItem CanonicalItem | RemoveItem string | LookupSettles nat nat fetch_result | Resume nat

fun step :: "(string \<Rightarrow> string \<Rightarrow> int) \<Rightarrow> state \<Rightarrow> event \<Rightarrow> state" where
  "step lc s (AddItem i) = render lc (addItem i s)"
| "step lc s (RemoveItem ident) = render lc (removeItem ident s)"
| "step lc s (LookupSettles g k fr) = lookupSettles g k fr s"
| "step lc s (Resume g) = resume g s"

definition run :: "(string \<Rightarrow> string \<Rightarrow> int) \<Rightarrow> state \<Rightarrow> event list \<Rightarrow> state" where
  "run lc s evs = foldl (step lc) s evs"

text \<open>The \<open>useState\<close> defaults, and the state after the first render's effect.\<close>

definition initial :: state where
  "initial = \<lparr>query = [], suggestions = [], selected = [], loadingQuery = False,
     loadingPairs = False, pairs = Map.empty, effects = [], deps = [], calls = [],
     console = []\<rparr>"

definition mount :: "(string \<Rightarrow> string \<Rightarrow> int) \<Rightarrow> state" where
  "mount lc =
     (let pl = pairList (gridItems lc (selected initial))
      in runEffect pl (initial\<lparr>deps := depKey pl\<rparr>))"

text \<open>The generation whose run is the latest.\<close>

definition current :: "state \<Rightarrow> nat" where
  "current s = length (effects s) - 1"

text \<open>
  The events that are not the user's: a lookup settles, a continuation runs.
\<close>

fun isNetwork :: "event \<Rightarrow> bool" where
  "isNetwork (LookupSettles g k fr) = True"
| "isNetwork (Resume g) = True"
| "isNetwork ev = False"

text \<open>
  The events of the generations before \<open>n\<close>: their late lookups and continuations.
\<close>

fun staleEvent :: "nat \<Rightarrow> event \<Rightarrow> bool" where
  "staleEvent n (LookupSettles g k fr) = (g < n)"
| "staleEvent n (Resume g) = (g < n)"
| "staleEvent n ev = False"

text \<open>
  The lookups of generation \<open>g\<close> settle in the order \<open>order\<close>, the lookup of pair \<open>k\<close>
  ending as \<open>frs ! k\<close>; and the slots of a run of which the lookups in \<open>D\<close> have
  settled so.
\<close>

definition settleEvents :: "nat \<Rightarrow> nat list \<Rightarrow> fetch_result list \<Rightarrow> event list" where
  "settleEvents g order frs = map (\<lambda>k. LookupSettles g k (frs ! k)) order"

definition slotsOf :: "pair list \<Rightarrow> fetch_result list \<Rightarrow> nat set \<Rightarrow> (string \<times> json option) option list" where
  "slotsOf pl frs D =
     map (\<lambda>k. if k \<in> D then Some (lookupEntry (pl ! k) (frs ! k)) else None) [0..<length pl]"

text \<open>
  The array \<open>Promise.all\<close> resolves to when the lookup of the \<open>k\<close>-th pair ends as the
  \<open>k\<close>-th of \<open>frs\<close>; and one whole generation from state \<open>s\<close>: the effect runs on
  \<open>pl\<close>, its lookups settle in the order \<open>order\<close>, then its continuation runs.
\<close>

definition entriesOf :: "pair list \<Rightarrow> fetch_result list \<Rightarrow> (string \<times> json option) list" where
  "entriesOf pl frs = map (\<lambda>(p, fr). lookupEntry p fr) (zip pl frs)"

definition generation ::
  "(string \<Rightarrow> string \<Rightarrow> int) \<Rightarrow> pair list \<Rightarrow> nat list \<Rightarrow> fetch_result list \<Rightarrow> state \<Rightarrow> state" where
  "generation lc pl order frs s =
     run lc (runEffect pl s)
       (settleEvents (length (effects s)) order frs @ [Resume (length (effects s))])"

text \<open>
  What holds of every state the component reaches: there is a latest run, every
  earlier run is cancelled, the dependency string is that of the current pair list,
  and while it is empty the cache is empty and the latest run has returned.
\<close>

definition invariant :: "(string \<Rightarrow> string \<Rightarrow> int) \<Rightarrow> state \<Rightarrow> bool" where
  "invariant lc s =
     (effects s \<noteq> []
      \<and> list_all cancelled (butlast (effects s))
      \<and> deps s = depKey (pairList (gridItems lc (selected s)))
      \<and> (if deps s = [] then pairs s = Map.empty \<and> resumed (last (effects s)) else True))"

section \<open>The matrix cell\<close>

text \<open>
  Off the diagonal: \<open>ix = pairs[key] || null\<close>, \<open>isLoading\<close>, and the label. The
  ellipsis is its three UTF-8 bytes.
\<close>

definition cellIx :: "state \<Rightarrow> CanonicalItem \<Rightarrow> CanonicalItem \<Rightarrow> json option" where
  "cellIx s row col =
     (case pairs s (cellKey row col) of
        Some (Some j) \<Rightarrow> if truthy j then Some j else None
      | _ \<Rightarrow> None)"

definition NO_KNOWN_TEXT :: string where
  "NO_KNOWN_TEXT = ''no known interaction from these sources''"

definition cellLabel :: "state \<Rightarrow> CanonicalItem \<Rightarrow> CanonicalItem \<Rightarrow> json option" where
  "cellLabel s row col =
     (case cellIx s row col of
        Some j \<Rightarrow> getProp j ''severity''
      | None \<Rightarrow>
          if loadingPairs s \<and> pairs s (cellKey row col) = None
          then Some (JStr [CHR 0xE2, CHR 0x80, CHR 0xA6])
          else Some (JStr NO_KNOWN_TEXT))"

section \<open>Backend: the normalization endpoint\<close>







text \<open>
  \<open>!q\<close> on what \<open>searchParams.get\<close> returns: the parameter is missing (\<open>null\<close>) or
  empty.
\<close>

definition missing :: "string option \<Rightarrow> bool" where
  "missing p = (p = None \<or> p = Some [])"

text \<open>
  A candidate of RxNorm's approximate-term reply, with the two members the code reads
  (\<open>None\<close> is \<open>undefined\<close>), and how the request to RxNorm ends: the \<open>try\<close> block
  throws before the loop (the fetch rejects, the body is not JSON or is \<open>null\<close>), or
  \<open>j.approximateGroup?.candidate\<close> is falsy (\<open>RxReply None\<close>) or a list. A reply on
  which the loop throws part-way leaves \<open>out\<close> as the reply cut there does.
\<close>

record candidate =
  rxcui :: "json option"
  name :: "json option"

datatype rxnorm_reply = RxFailed | RxReply "candidate list option"

text \<open>
  An object literal as \<open>JSON.stringify\<close> writes it: a member whose value is
  \<open>undefined\<close> is left out.
\<close>

definition field :: "string \<Rightarrow> json option \<Rightarrow> (string \<times> json) list" where
  "field k v = (case v of None \<Rightarrow> [] | Some j \<Rightarrow> [(k, j)])"

definition candidateItem :: "candidate \<Rightarrow> json" where
  "candidateItem c =
     JObj (field ''id'' (rxcui c) @ field ''display'' (name c) @ [(''type'', JStr ''Drug'')]
           @ field ''rxCui'' (rxcui c))"

definition normalizeOut :: "rxnorm_reply \<Rightarrow> json list" where
  "normalizeOut reply =
     (case reply of
        RxFailed \<Rightarrow> []
      | RxReply None \<Rightarrow> []
      | RxReply (Some cs) \<Rightarrow> map candidateItem cs)"

definition GET_normalize :: "string option \<Rightarrow> rxnorm_reply \<Rightarrow> fetch_result" where
  "GET_normalize q reply =
     (if missing q then Response 200 (Parsed (JObj [(''canonical'', JArr [])]))
      else Response 200 (Parsed (JObj [(''canonical'', JArr (normalizeOut reply))])))"

section \<open>Backend: the interaction endpoint\<close>













section \<open>Example data\<close>

text \<open>
  The two items of the specification's end-to-end scenario, with the identifiers
  RxNorm gives them, as the normalization endpoint would return them, and an
  interaction record as the interaction endpoint would.
\<close>

definition warfarin :: CanonicalItem where
  "warfarin = \<lparr>id_c = ''11289'', display = ''Warfarin'', type_c = Drug,
     rxCui = Some ''11289'', unii = None\<rparr>"

definition aspirin :: CanonicalItem where
  "aspirin = \<lparr>id_c = ''1191'', display = ''Aspirin'', type_c = Drug,
     rxCui = Some ''1191'', unii = None\<rparr>"

definition simvastatin :: CanonicalItem where
  "simvastatin = \<lparr>id_c = ''36567'', display = ''Simvastatin'', type_c = Drug,
     rxCui = Some ''36567'', unii = None\<rparr>"

definition majorRecord :: json where
  "majorRecord = JObj [(''severity'', JStr ''major''), (''guidance'', JStr ''Avoid''),
     (''evidence'', JStr ''C''), (''sources'', JArr [])]"

text \<open>Four items whose ids are distinct; two of the ids contain the separator.\<close>

definition barItems :: "CanonicalItem list" where
  "barItems =
     [\<lparr>id_c = ''a'', display = ''A'', type_c = Drug, rxCui = None, unii = None\<rparr>,
      \<lparr>id_c = ''b|c'', display = ''B'', type_c = Drug, rxCui = None, unii = None\<rparr>,
      \<lparr>id_c = ''a|b'', display = ''C'', type_c = Drug, rxCui = None, unii = None\<rparr>,
      \<lparr>id_c = ''c'', display = ''D'', type_c = Drug, rxCui = None, unii = None\<rparr>]"

section \<open>Structure of the pair list\<close>

lemma pairList_inner_eq:
  "j \<le> length g \<Longrightarrow> pairList_inner g i j out = out @ map (mkPair (g ! i)) (drop j g)"
proof (induction g i j out rule: pairList_inner.induct)
  case (1 g i j out)
  show ?case
  proof (cases "j < length g")
    case True
    then have "drop j g = g ! j # drop (Suc j) g"
      by (simp add: Cons_nth_drop_Suc)
    with True 1 show ?thesis
      by (subst pairList_inner.simps) simp
  next
    case False
    with 1 show ?thesis
      by (subst pairList_inner.simps) simp
  qed
qed


lemma pairList_outer_eq:
  "i \<le> length g \<Longrightarrow> pairList_outer g i out = out @ allPairs (drop i g)"
proof (induction g i out rule: pairList_outer.induct)
  case (1 g i out)
  show ?case
  proof (cases "i < length g")
    case True
    then have d: "drop i g = g ! i # drop (Suc i) g"
      by (simp add: Cons_nth_drop_Suc)
    from True have "pairList_outer g i out = pairList_outer g (i + 1) (pairList_inner g i (i + 1) out)"
      by (subst pairList_outer.simps) simp
    also from True have "\<dots> = pairList_inner g i (i + 1) out @ allPairs (drop (i + 1) g)"
      by (intro 1) simp_all
    also from True have "\<dots> = out @ allPairs (drop i g)"
      by (simp add: pairList_inner_eq d)
    finally show ?thesis .
  next
    case False
    with 1(2) show ?thesis
      by (subst pairList_outer.simps) simp
  qed
qed

lemma pairList_allPairs: "pairList g = allPairs g"
  by (simp add: pairList_def pairList_outer_eq)

lemma length_allPairs: "length (allPairs xs) = length xs * (length xs - 1) div 2"
proof (induction xs)
  case Nil
  show ?case by simp
next
  case (Cons x xs)
  define n where "n = length xs"
  define m where "m = n * (n - 1)"
  define k where "k = Suc n * n"
  have "k = 2 * n + m"
    unfolding k_def m_def by (cases n) simp_all
  then have "n + m div 2 = k div 2"
    by arith
  with Cons show ?case
    by (simp add: n_def m_def k_def)
qed

lemma set_insort_cmp: "set (insort_cmp c x xs) = insert x (set xs)"
  by (induction xs) auto

lemma set_array_sort: "set (array_sort c xs) = set xs"
  by (induction xs) (simp_all add: array_sort_def set_insort_cmp)

lemma length_insort_cmp: "length (insort_cmp c x xs) = Suc (length xs)"
  by (induction xs) auto

lemma length_array_sort: "length (array_sort c xs) = length xs"
  by (induction xs) (simp_all add: array_sort_def length_insort_cmp)

lemma distinct_insort_cmp: "distinct (insort_cmp c x xs) = (x \<notin> set xs \<and> distinct xs)"
  by (induction xs) (auto simp: set_insort_cmp)

lemma distinct_array_sort: "distinct (array_sort c xs) = distinct xs"
  by (induction xs) (simp_all add: array_sort_def distinct_insort_cmp set_array_sort [unfolded array_sort_def])


lemma sorted_insort_cmp:
  assumes tot: "\<And>x y. c x y \<le> 0 \<or> c y x \<le> 0"
    and tr: "\<And>x y z. c x y \<le> 0 \<Longrightarrow> c y z \<le> 0 \<Longrightarrow> c x z \<le> 0"
  shows "sorted_wrt (\<lambda>x y. c x y \<le> 0) xs \<Longrightarrow> sorted_wrt (\<lambda>x y. c x y \<le> 0) (insort_cmp c x xs)"
proof (induction xs)
  case Nil
  show ?case by simp
next
  case (Cons y ys)
  show ?case
  proof (cases "c x y \<le> 0")
    case True
    with Cons.prems show ?thesis
      by (auto intro: tr)
  next
    case False
    with tot [of x y] have "c y x \<le> 0" by simp
    with False Cons show ?thesis
      by (auto simp: set_insort_cmp)
  qed
qed

lemma sorted_array_sort:
  assumes tot: "\<And>x y. c x y \<le> 0 \<or> c y x \<le> 0"
    and tr: "\<And>x y z. c x y \<le> 0 \<Longrightarrow> c y z \<le> 0 \<Longrightarrow> c x z \<le> 0"
  shows "sorted_wrt (\<lambda>x y. c x y \<le> 0) (array_sort c xs)"
proof (induction xs)
  case Nil
  show ?case by (simp add: array_sort_def)
next
  case (Cons x xs)
  then show ?case
    using sorted_insort_cmp [of c, OF tot tr] by (simp add: array_sort_def)
qed

lemma sorted_wrt_unique:
  assumes "sorted_wrt R xs" "sorted_wrt R ys" "distinct xs" "distinct ys" "set xs = set ys"
    and anti: "\<And>x y. x \<in> set xs \<Longrightarrow> y \<in> set xs \<Longrightarrow> R x y \<Longrightarrow> R y x \<Longrightarrow> x = y"
  shows "xs = ys"
  using assms
proof (induction xs arbitrary: ys)
  case Nil
  then show ?case by simp
next
  case (Cons x xs)
  from Cons.prems(5) obtain y ys' where ys: "ys = y # ys'"
    by (cases ys) auto
  have xy: "x = y"
  proof (rule ccontr)
    assume ne: "x \<noteq> y"
    with Cons.prems(5) ys have "x \<in> set ys'" "y \<in> set xs"
      by auto
    with Cons.prems(1,2) ys have "R y x" "R x y"
      by auto
    with Cons.prems(6) [of x y] \<open>y \<in> set xs\<close> ne show False
      by auto
  qed
  from Cons.prems(3,4,5) ys xy have "set xs = set ys'"
    by (auto simp: insert_eq_iff)
  with Cons.prems ys xy have "xs = ys'"
    by (intro Cons.IH) auto
  with xy ys show ?case by simp
qed

lemma gridItems_unique:
  assumes c: "consistent lc"
    and s: "set sel1 = set sel2"
    and d1: "distinct sel1" and d2: "distinct sel2"
    and nt: "\<And>x y. x \<in> set sel1 \<Longrightarrow> y \<in> set sel1 \<Longrightarrow> tie lc (display x) (display y) \<Longrightarrow> x = y"
  shows "gridItems lc sel1 = gridItems lc sel2"
proof -
  let ?c = "\<lambda>x y. lc (display x) (display y)"
  from c have tot: "\<And>x y. ?c x y \<le> 0 \<or> ?c y x \<le> 0"
    and tr: "\<And>x y z. ?c x y \<le> 0 \<Longrightarrow> ?c y z \<le> 0 \<Longrightarrow> ?c x z \<le> 0"
    unfolding consistent_def by blast+
  show ?thesis
    unfolding gridItems_def
  proof (rule sorted_wrt_unique [where R = "\<lambda>x y. ?c x y \<le> 0"])
    show "sorted_wrt (\<lambda>x y. ?c x y \<le> 0) (array_sort ?c sel1)"
      by (rule sorted_array_sort [of ?c, OF tot tr])
    show "sorted_wrt (\<lambda>x y. ?c x y \<le> 0) (array_sort ?c sel2)"
      by (rule sorted_array_sort [of ?c, OF tot tr])
    show "distinct (array_sort ?c sel1)" "distinct (array_sort ?c sel2)"
      using d1 d2 by (simp_all add: distinct_array_sort)
    show "set (array_sort ?c sel1) = set (array_sort ?c sel2)"
      using s by (simp add: set_array_sort)
    show "x = y" if "x \<in> set (array_sort ?c sel1)" "y \<in> set (array_sort ?c sel1)"
      "?c x y \<le> 0" "?c y x \<le> 0" for x y
      using that nt [of x y] by (simp add: set_array_sort tie_def)
  qed
qed

lemma consistent_ordinalCompare: "consistent ordinalCompare"
  unfolding consistent_def ordinalCompare_def by (auto simp: not_less)

lemma key_split:
  assumes "CHR ''|'' \<notin> set x" "CHR ''|'' \<notin> set x'" "x @ ''|'' @ y = x' @ ''|'' @ y'"
  shows "x = x' \<and> y = y'"
proof -
  have "takeWhile (\<lambda>c. c \<noteq> CHR ''|'') (x @ ''|'' @ y) = x"
    using assms(1) by (subst takeWhile_append2) auto
  moreover have "takeWhile (\<lambda>c. c \<noteq> CHR ''|'') (x' @ ''|'' @ y') = x'"
    using assms(2) by (subst takeWhile_append2) auto
  ultimately have "x = x'" using assms(3) by simp
  with assms(3) show ?thesis by simp
qed

lemma allPairs_members:
  "p \<in> set (allPairs xs) \<Longrightarrow> a_p p \<in> set xs \<and> b_p p \<in> set xs \<and> p = mkPair (a_p p) (b_p p)"
  by (induction xs) (auto simp: mkPair_def)

lemma allPairs_ordered:
  "distinct xs \<Longrightarrow> p \<in> set (allPairs xs) \<Longrightarrow> a_p p \<noteq> b_p p"
  by (induction xs) (auto simp: mkPair_def dest: allPairs_members)


lemma set_allPairs: "set (allPairs (x # xs)) = mkPair x ` set xs \<union> set (allPairs xs)"
  by simp

lemma allPairs_combinations:
  "distinct xs \<Longrightarrow> (\<lambda>p. {a_p p, b_p p}) ` set (allPairs xs) = {S. S \<subseteq> set xs \<and> card S = 2}"
proof (induction xs)
  case Nil
  show ?case by auto
next
  case (Cons x xs)
  then have x: "x \<notin> set xs" and IH: "(\<lambda>p. {a_p p, b_p p}) ` set (allPairs xs) = {S. S \<subseteq> set xs \<and> card S = 2}"
    by simp_all
  have first: "(\<lambda>p. {a_p p, b_p p}) ` mkPair x ` set xs = (\<lambda>y. {x, y}) ` set xs"
    by (auto simp: mkPair_def image_iff)
  have "{S. S \<subseteq> set (x # xs) \<and> card S = 2} = (\<lambda>y. {x, y}) ` set xs \<union> {S. S \<subseteq> set xs \<and> card S = 2}"
  proof (intro set_eqI iffI)
    fix S assume "S \<in> {S. S \<subseteq> set (x # xs) \<and> card S = 2}"
    then have sub: "S \<subseteq> insert x (set xs)" and "card S = 2" by simp_all
    then obtain u v where S: "S = {u, v}" and uv: "u \<noteq> v"
      by (auto simp: card_2_iff)
    show "S \<in> (\<lambda>y. {x, y}) ` set xs \<union> {S. S \<subseteq> set xs \<and> card S = 2}"
    proof (cases "x \<in> S")
      case True
      with S uv sub obtain y where "S = {x, y}" "y \<in> set xs"
        by (cases "u = x") (auto simp: insert_commute)
      then show ?thesis by auto
    next
      case False
      with sub have "S \<subseteq> set xs" by auto
      with \<open>card S = 2\<close> show ?thesis by simp
    qed
  next
    fix S assume "S \<in> (\<lambda>y. {x, y}) ` set xs \<union> {S. S \<subseteq> set xs \<and> card S = 2}"
    then show "S \<in> {S. S \<subseteq> set (x # xs) \<and> card S = 2}"
      using x by (auto simp: card_2_iff)
  qed
  with IH first show ?case
    by (simp only: set_allPairs image_Un)
qed

lemma allPairs_distinct_unordered:
  "distinct xs \<Longrightarrow> distinct (map (\<lambda>p. {a_p p, b_p p}) (allPairs xs))"
proof (induction xs)
  case Nil
  show ?case by simp
next
  case (Cons x xs)
  then have x: "x \<notin> set xs" and dx: "distinct xs"
    and IH: "distinct (map (\<lambda>p. {a_p p, b_p p}) (allPairs xs))"
    by simp_all
  have m: "map (\<lambda>p. {a_p p, b_p p}) (map (mkPair x) xs) = map (\<lambda>y. {x, y}) xs"
    by (simp add: mkPair_def)
  have "inj_on (\<lambda>y. {x, y}) (set xs)"
    by (auto simp: inj_on_def doubleton_eq_iff)
  with dx have d1: "distinct (map (\<lambda>y. {x, y}) xs)"
    by (simp add: distinct_map)
  have d2: "{x, y} \<noteq> {a_p p, b_p p}" if "y \<in> set xs" "p \<in> set (allPairs xs)" for y p
  proof -
    from that(2) have "a_p p \<in> set xs" "b_p p \<in> set xs"
      by (auto dest: allPairs_members)
    with x show ?thesis by (auto simp: doubleton_eq_iff)
  qed
  from d1 d2 IH show ?case
    by (auto simp: m simp del: map_map)
qed

lemma allPairs_distinct_keys:
  assumes "distinct (map id_c xs)" "list_all (\<lambda>x. CHR ''|'' \<notin> set (id_c x)) xs"
  shows "distinct (map key_p (allPairs xs))"
  using assms
proof (induction xs)
  case Nil
  show ?case by simp
next
  case (Cons x xs)
  then have x: "id_c x \<notin> id_c ` set xs" and dx: "distinct (map id_c xs)"
    and nb: "CHR ''|'' \<notin> set (id_c x)" "\<And>y. y \<in> set xs \<Longrightarrow> CHR ''|'' \<notin> set (id_c y)"
    and IH: "distinct (map key_p (allPairs xs))"
    by (simp_all add: list_all_iff)
  have m: "map key_p (map (mkPair x) xs) = map (\<lambda>y. id_c x @ ''|'' @ id_c y) xs"
    by (simp add: mkPair_def)
  have "inj_on (\<lambda>y. id_c x @ ''|'' @ id_c y) (set xs)"
    using dx by (auto simp: inj_on_def distinct_map)
  moreover from dx have "distinct xs"
    by (simp add: distinct_map)
  ultimately have d1: "distinct (map (\<lambda>y. id_c x @ ''|'' @ id_c y) xs)"
    by (simp add: distinct_map)
  have d2: "id_c x @ ''|'' @ id_c y \<noteq> key_p p" if "y \<in> set xs" "p \<in> set (allPairs xs)" for y p
  proof
    assume eq: "id_c x @ ''|'' @ id_c y = key_p p"
    from that(2) have a: "a_p p \<in> set xs" and p: "p = mkPair (a_p p) (b_p p)"
      by (auto dest: allPairs_members)
    from p have "key_p p = id_c (a_p p) @ ''|'' @ id_c (b_p p)"
      by (metis mkPair_def pair.select_convs(1))
    with eq nb(1) nb(2) [OF a] have "id_c x = id_c (a_p p)"
      using key_split by metis
    with a x show False by auto
  qed
  from d1 d2 IH show ?case
    by (auto simp: m simp del: map_map)
qed


lemma cellKey_sym: "cellKey x y = cellKey y x"
  by (auto simp: cellKey_def sort2_def)

lemma mkPair_key_cellKey: "id_c x \<le> id_c y \<Longrightarrow> key_p (mkPair x y) = cellKey x y"
  by (auto simp: cellKey_def sort2_def mkPair_def)

section \<open>Claims about pair keys and the pair list\<close>

text \<open>
  Claim C1 says that the key under which the refresh coordinator caches a pair's result
  is the key under which the matrix cell of that pair looks it up (the two ids sorted,
  then joined). The cell does sort the ids (\<open>cellKey_sym\<close>); \<open>pairList\<close> joins them in
  the order of the display names. For Warfarin (11289) and Aspirin (1191) the record is
  cached under \<open>1191|11289\<close>, the cell reads \<open>11289|1191\<close>, and with a record of
  severity major in the cache the cell is labelled as having no known interaction.
\<close>

theorem stored_key_is_not_cell_key:
  "map key_p (pairList (gridItems ordinalCompare [warfarin, aspirin])) = [''1191|11289'']
   \<and> cellKey aspirin warfarin = ''11289|1191''
   \<and> cellKey warfarin aspirin = ''11289|1191''
   \<and> pairs (run ordinalCompare (mount ordinalCompare)
        [AddItem warfarin, AddItem aspirin,
         LookupSettles 1 0 (Response 200 (Parsed majorRecord)), Resume 1])
        ''1191|11289'' = Some (Some majorRecord)
   \<and> cellLabel (run ordinalCompare (mount ordinalCompare)
        [AddItem warfarin, AddItem aspirin,
         LookupSettles 1 0 (Response 200 (Parsed majorRecord)), Resume 1])
        aspirin warfarin = Some (JStr NO_KNOWN_TEXT)"
  by code_simp

text \<open>
  Claim C4 says that the refresh coordinator calls the Interaction Client with the ids
  of the pair's two items. The effect passes \<open>p.a.display\<close> and \<open>p.b.display\<close>: for
  Warfarin and Aspirin the one call made has the arguments Aspirin and Warfarin, not
  1191 and 11289.
\<close>

theorem lookup_called_with_display_names:
  "calls (run ordinalCompare (mount ordinalCompare) [AddItem warfarin, AddItem aspirin])
     = [(display aspirin, display warfarin)]
   \<and> (display aspirin, display warfarin) = (''Aspirin'', ''Warfarin'')
   \<and> (id_c aspirin, id_c warfarin) = (''1191'', ''11289'')"
  by code_simp

lemma filter_insort_cmp:
  assumes T: "\<And>x y. T x \<Longrightarrow> T y \<Longrightarrow> c x y \<le> 0"
  shows "filter T (insort_cmp c x xs) = (if T x then x # filter T xs else filter T xs)"
proof (induction xs)
  case Nil
  show ?case by simp
next
  case (Cons y ys)
  show ?case
  proof (cases "c x y \<le> 0")
    case True
    then show ?thesis by simp
  next
    case False
    with T [of x y] have "\<not> (T x \<and> T y)"
      by auto
    with False Cons show ?thesis
      by auto
  qed
qed

lemma filter_array_sort:
  assumes T: "\<And>x y. T x \<Longrightarrow> T y \<Longrightarrow> c x y \<le> 0"
  shows "filter T (array_sort c xs) = filter T xs"
proof (induction xs)
  case Nil
  show ?case by (simp add: array_sort_def)
next
  case (Cons x xs)
  have "filter T (array_sort c (x # xs)) = filter T (insort_cmp c x (array_sort c xs))"
    by (simp add: array_sort_def)
  also have "\<dots> = (if T x then x # filter T (array_sort c xs) else filter T (array_sort c xs))"
    using T by (rule filter_insort_cmp)
  finally show ?case using Cons by simp
qed

lemma gridItems_ties_stable:
  assumes "consistent lc"
  shows "filter (\<lambda>y. tie lc d (display y)) (gridItems lc sel) = filter (\<lambda>y. tie lc d (display y)) sel"
  unfolding gridItems_def
proof (rule filter_array_sort)
  fix x y :: CanonicalItem
  assume "tie lc d (display x)" "tie lc d (display y)"
  then have "lc (display x) d \<le> 0" "lc d (display y) \<le> 0"
    by (simp_all add: tie_def)
  with assms show "lc (display x) (display y) \<le> 0"
    unfolding consistent_def by blast
qed

text \<open>
  Claim C7, as amended: for a consistent collation, two selections with the same items
  (unique by id) in which no two items have display names that tie give the same pair
  list in the same order, whatever the order the items were added in; and in every
  selection, the items whose display names tie with a given name stand in the sorted
  list, from which the pair list is built, in the order they were added in.
\<close>

theorem pairList_insertion_order:
  assumes "consistent lc"
  shows "(set sel1 = set sel2 \<and> distinct (map id_c sel1) \<and> distinct (map id_c sel2)
          \<and> (\<forall>x\<in>set sel1. \<forall>y\<in>set sel1. tie lc (display x) (display y) \<longrightarrow> x = y)
          \<longrightarrow> pairList (gridItems lc sel1) = pairList (gridItems lc sel2))
    \<and> (\<forall>d. filter (\<lambda>y. tie lc d (display y)) (gridItems lc sel1)
            = filter (\<lambda>y. tie lc d (display y)) sel1)"
proof (intro conjI impI allI)
  assume h: "set sel1 = set sel2 \<and> distinct (map id_c sel1) \<and> distinct (map id_c sel2)
          \<and> (\<forall>x\<in>set sel1. \<forall>y\<in>set sel1. tie lc (display x) (display y) \<longrightarrow> x = y)"
  then have "distinct sel1" "distinct sel2"
    by (simp_all add: distinct_map)
  with assms h have "gridItems lc sel1 = gridItems lc sel2"
    by (intro gridItems_unique) auto
  then show "pairList (gridItems lc sel1) = pairList (gridItems lc sel2)"
    by simp
next
  fix d
  from assms show "filter (\<lambda>y. tie lc d (display y)) (gridItems lc sel1)
            = filter (\<lambda>y. tie lc d (display y)) sel1"
    by (rule gridItems_ties_stable)
qed

theorem pairList_insertion_order_witness:
  "consistent ordinalCompare
   \<and> set [warfarin, aspirin] = set [aspirin, warfarin]
   \<and> pairList (gridItems ordinalCompare [warfarin, aspirin])
       = pairList (gridItems ordinalCompare [aspirin, warfarin])
   \<and> map key_p (pairList (gridItems ordinalCompare [aspirin, warfarin])) = [''1191|11289'']
   \<and> filter (\<lambda>y. tie ordinalCompare (display aspirin) (display y))
        (gridItems ordinalCompare [aspirin\<lparr>id_c := ''243670''\<rparr>, warfarin, aspirin])
       = [aspirin\<lparr>id_c := ''243670''\<rparr>, aspirin]"
proof -
  have s: "set [warfarin, aspirin] = set [aspirin, warfarin]"
    by auto
  have d: "distinct (map id_c [warfarin, aspirin])" "distinct (map id_c [aspirin, warfarin])"
    by (simp_all add: warfarin_def aspirin_def)
  have t: "\<forall>x\<in>set [warfarin, aspirin]. \<forall>y\<in>set [warfarin, aspirin].
      tie ordinalCompare (display x) (display y) \<longrightarrow> x = y"
    by (simp add: tie_def ordinalCompare_def warfarin_def aspirin_def)
  have k: "map key_p (pairList (gridItems ordinalCompare [aspirin, warfarin])) = [''1191|11289'']"
    by code_simp
  have f: "filter (\<lambda>y. tie ordinalCompare (display aspirin) (display y))
        [aspirin\<lparr>id_c := ''243670''\<rparr>, warfarin, aspirin]
       = [aspirin\<lparr>id_c := ''243670''\<rparr>, aspirin]"
    by (simp add: tie_def ordinalCompare_def warfarin_def aspirin_def)
  note th = pairList_insertion_order [OF consistent_ordinalCompare]
  from th [of "[warfarin, aspirin]" "[aspirin, warfarin]"] s d t
  have e: "pairList (gridItems ordinalCompare [warfarin, aspirin])
       = pairList (gridItems ordinalCompare [aspirin, warfarin])"
    by blast
  from th [of "[aspirin\<lparr>id_c := ''243670''\<rparr>, warfarin, aspirin]"]
  have "\<forall>d. filter (\<lambda>y. tie ordinalCompare d (display y))
        (gridItems ordinalCompare [aspirin\<lparr>id_c := ''243670''\<rparr>, warfarin, aspirin])
       = filter (\<lambda>y. tie ordinalCompare d (display y))
        [aspirin\<lparr>id_c := ''243670''\<rparr>, warfarin, aspirin]"
    by (rule conjunct2)
  then have "filter (\<lambda>y. tie ordinalCompare (display aspirin) (display y))
        (gridItems ordinalCompare [aspirin\<lparr>id_c := ''243670''\<rparr>, warfarin, aspirin])
       = filter (\<lambda>y. tie ordinalCompare (display aspirin) (display y))
        [aspirin\<lparr>id_c := ''243670''\<rparr>, warfarin, aspirin]"
    by (rule spec)
  with f have g: "filter (\<lambda>y. tie ordinalCompare (display aspirin) (display y))
        (gridItems ordinalCompare [aspirin\<lparr>id_c := ''243670''\<rparr>, warfarin, aspirin])
       = [aspirin\<lparr>id_c := ''243670''\<rparr>, aspirin]"
    by (simp only:)
  from consistent_ordinalCompare s e k g show ?thesis
    by (intro conjI)
qed

text \<open>
  With two items of the same display name the stable sort keeps the order of
  insertion, and the pair list of the same selection set differs.
\<close>

theorem pairList_insertion_order_counterexample:
  "set [aspirin, aspirin\<lparr>id_c := ''243670''\<rparr>] = set [aspirin\<lparr>id_c := ''243670''\<rparr>, aspirin]
   \<and> distinct (map id_c [aspirin, aspirin\<lparr>id_c := ''243670''\<rparr>])
   \<and> distinct (map id_c [aspirin\<lparr>id_c := ''243670''\<rparr>, aspirin])
   \<and> map key_p (pairList (gridItems ordinalCompare [aspirin, aspirin\<lparr>id_c := ''243670''\<rparr>]))
        = [''1191|243670'']
   \<and> map key_p (pairList (gridItems ordinalCompare [aspirin\<lparr>id_c := ''243670''\<rparr>, aspirin]))
        = [''243670|1191'']
   \<and> pairList (gridItems ordinalCompare [aspirin, aspirin\<lparr>id_c := ''243670''\<rparr>])
        \<noteq> pairList (gridItems ordinalCompare [aspirin\<lparr>id_c := ''243670''\<rparr>, aspirin])"
proof -
  have a: "map key_p (pairList (gridItems ordinalCompare [aspirin, aspirin\<lparr>id_c := ''243670''\<rparr>]))
        = [''1191|243670'']"
    by code_simp
  have b: "map key_p (pairList (gridItems ordinalCompare [aspirin\<lparr>id_c := ''243670''\<rparr>, aspirin]))
        = [''243670|1191'']"
    by code_simp
  have c: "pairList (gridItems ordinalCompare [aspirin, aspirin\<lparr>id_c := ''243670''\<rparr>])
        \<noteq> pairList (gridItems ordinalCompare [aspirin\<lparr>id_c := ''243670''\<rparr>, aspirin])"
  proof
    assume "pairList (gridItems ordinalCompare [aspirin, aspirin\<lparr>id_c := ''243670''\<rparr>])
        = pairList (gridItems ordinalCompare [aspirin\<lparr>id_c := ''243670''\<rparr>, aspirin])"
    with a b show False by simp
  qed
  have d: "set [aspirin, aspirin\<lparr>id_c := ''243670''\<rparr>] = set [aspirin\<lparr>id_c := ''243670''\<rparr>, aspirin]"
    by auto
  have e: "distinct (map id_c [aspirin, aspirin\<lparr>id_c := ''243670''\<rparr>])"
    "distinct (map id_c [aspirin\<lparr>id_c := ''243670''\<rparr>, aspirin])"
    by (simp_all add: aspirin_def)
  from a b c d e show ?thesis by simp
qed


text \<open>
  Claim C8, as amended: for a selection of \<open>n\<close> items, unique by id, whose ids do not
  contain the separator \<open>|\<close>, the pair list has \<open>n (n - 1) / 2\<close> entries, one for each
  unordered 2-combination of the selection, each keyed by its two ids joined, and no
  two entries have the same key. Only the last part needs the ids to be free of
  the separator.
\<close>

theorem pairList_combinations:
  assumes "distinct (map id_c sel)"
  shows "length (pairList (gridItems lc sel)) = length sel * (length sel - 1) div 2
    \<and> (\<lambda>p. {a_p p, b_p p}) ` set (pairList (gridItems lc sel)) = {S. S \<subseteq> set sel \<and> card S = 2}
    \<and> distinct (map (\<lambda>p. {a_p p, b_p p}) (pairList (gridItems lc sel)))
    \<and> list_all (\<lambda>p. key_p p = id_c (a_p p) @ ''|'' @ id_c (b_p p)) (pairList (gridItems lc sel))
    \<and> ((\<forall>x\<in>set sel. CHR ''|'' \<notin> set (id_c x))
          \<longrightarrow> distinct (map key_p (pairList (gridItems lc sel))))"
proof -
  let ?g = "gridItems lc sel"
  have set_g: "set ?g = set sel" and len_g: "length ?g = length sel"
    by (simp_all add: gridItems_def set_array_sort length_array_sort)
  from assms have "distinct sel"
    by (simp add: distinct_map)
  then have dg: "distinct ?g"
    by (simp add: gridItems_def distinct_array_sort)
  from assms have "inj_on id_c (set sel)"
    by (simp add: distinct_map)
  with dg set_g have dig: "distinct (map id_c ?g)"
    by (simp add: distinct_map)
  have keys: "list_all (\<lambda>p. key_p p = id_c (a_p p) @ ''|'' @ id_c (b_p p)) (allPairs ?g)"
    unfolding list_all_iff
  proof
    fix p assume "p \<in> set (allPairs ?g)"
    then have "p = mkPair (a_p p) (b_p p)"
      by (auto dest: allPairs_members)
    then show "key_p p = id_c (a_p p) @ ''|'' @ id_c (b_p p)"
      by (metis mkPair_def pair.select_convs(1))
  qed
  have dk: "distinct (map key_p (allPairs ?g))" if "\<forall>x\<in>set sel. CHR ''|'' \<notin> set (id_c x)"
  proof -
    from that set_g have "list_all (\<lambda>x. CHR ''|'' \<notin> set (id_c x)) ?g"
      by (simp add: list_all_iff)
    with dig show ?thesis
      by (rule allPairs_distinct_keys)
  qed
  from dk have dk': "(\<forall>x\<in>set sel. CHR ''|'' \<notin> set (id_c x)) \<longrightarrow> distinct (map key_p (allPairs ?g))"
    by blast
  show ?thesis
    unfolding pairList_allPairs
    using length_allPairs [of ?g] allPairs_combinations [OF dg] allPairs_distinct_unordered [OF dg]
      keys dk'
    by (simp only: set_g len_g simp_thms)
qed

theorem pairList_combinations_witness:
  "distinct (map id_c [warfarin, aspirin])
   \<and> length (pairList (gridItems ordinalCompare [warfarin, aspirin])) = 1
   \<and> (\<lambda>p. {a_p p, b_p p}) ` set (pairList (gridItems ordinalCompare [warfarin, aspirin]))
        = {S. S \<subseteq> {warfarin, aspirin} \<and> card S = 2}
   \<and> distinct (map key_p (pairList (gridItems ordinalCompare [warfarin, aspirin])))"
proof -
  have d: "distinct (map id_c [warfarin, aspirin])"
    by (simp add: warfarin_def aspirin_def)
  have b: "\<forall>x\<in>set [warfarin, aspirin]. CHR ''|'' \<notin> set (id_c x)"
    by (simp add: warfarin_def aspirin_def)
  from pairList_combinations [OF d, of ordinalCompare] b d show ?thesis
    by simp
qed

text \<open>
  Four items with distinct ids, two of which contain the separator: the first and the
  last of the six pairs get the same key.
\<close>

theorem pairList_combinations_counterexample:
  "distinct (map id_c barItems)
   \<and> map key_p (pairList (gridItems ordinalCompare barItems))
       = [''a|b|c'', ''a|a|b'', ''a|c'', ''b|c|a|b'', ''b|c|c'', ''a|b|c'']
   \<and> \<not> distinct (map key_p (pairList (gridItems ordinalCompare barItems)))"
proof -
  have k: "map key_p (pairList (gridItems ordinalCompare barItems))
       = [''a|b|c'', ''a|a|b'', ''a|c'', ''b|c|a|b'', ''b|c|c'', ''a|b|c'']"
    by code_simp
  have d: "distinct (map id_c barItems)"
    by code_simp
  from k d show ?thesis by simp
qed


section \<open>Claims about the backend\<close>

lemma candidateItem_type: "getProp (candidateItem c) ''type'' = Some (JStr ''Drug'')"
  by (simp add: candidateItem_def field_def split: option.split)

lemma normalizeOut_types:
  "list_all (\<lambda>it. getProp it ''type'' = Some (JStr ''Drug'')) (normalizeOut reply)"
  by (auto simp: normalizeOut_def list_all_iff candidateItem_type split: rxnorm_reply.split option.split)

text \<open>
  Claim C10: every item the normalization endpoint produces has the type \<open>Drug\<close>,
  never \<open>Supplement\<close> or \<open>Food\<close>, whatever the query and whatever RxNorm replies;
  these items are what the frontend's \<open>apiNormalize\<close> returns for that response.
\<close>

theorem normalize_items_are_drugs:
  "\<exists>items. GET_normalize q reply = Response 200 (Parsed (JObj [(''canonical'', JArr items)]))
     \<and> apiNormalize (GET_normalize q reply) = Inr items
     \<and> list_all (\<lambda>it. getProp it ''type'' = Some (JStr (typeName Drug))
                      \<and> getProp it ''type'' \<noteq> Some (JStr (typeName Supplement))
                      \<and> getProp it ''type'' \<noteq> Some (JStr (typeName Food))) items"
proof (cases "missing q")
  case True
  then show ?thesis
    by (simp add: GET_normalize_def apiNormalize_def ok_def)
next
  case False
  have "list_all (\<lambda>it. getProp it ''type'' = Some (JStr (typeName Drug))
                      \<and> getProp it ''type'' \<noteq> Some (JStr (typeName Supplement))
                      \<and> getProp it ''type'' \<noteq> Some (JStr (typeName Food))) (normalizeOut reply)"
    using normalizeOut_types [of reply] by (simp add: list_all_iff)
  with False show ?thesis
    by (simp add: GET_normalize_def apiNormalize_def ok_def)
qed

theorem normalize_items_are_drugs_witness:
  "apiNormalize (GET_normalize (Some ''warfarin'')
      (RxReply (Some [\<lparr>rxcui = Some (JStr ''11289''), name = Some (JStr ''Warfarin'')\<rparr>])))
    = Inr [JObj [(''id'', JStr ''11289''), (''display'', JStr ''Warfarin''),
                 (''type'', JStr ''Drug''), (''rxCui'', JStr ''11289'')]]"
  using normalize_items_are_drugs [of "Some ''warfarin''"
      "RxReply (Some [\<lparr>rxcui = Some (JStr ''11289''), name = Some (JStr ''Warfarin'')\<rparr>])"]
  by (simp add: GET_normalize_def missing_def normalizeOut_def candidateItem_def field_def
      apiNormalize_def ok_def)








section \<open>Claims about the debounced search\<close>








section \<open>The refresh coordinator: what every reachable state satisfies\<close>

lemma join_nonempty: "xs \<noteq> [] \<Longrightarrow> hd xs \<noteq> [] \<Longrightarrow> join sep xs \<noteq> []"
  by (cases "(sep, xs)" rule: join.cases) auto

lemma allPairs_key_nonempty: "p \<in> set (allPairs g) \<Longrightarrow> key_p p \<noteq> []"
proof -
  assume "p \<in> set (allPairs g)"
  then have "p = mkPair (a_p p) (b_p p)"
    by (auto dest: allPairs_members)
  then have "key_p p = id_c (a_p p) @ ''|'' @ id_c (b_p p)"
    by (metis mkPair_def pair.select_convs(1))
  then show ?thesis by simp
qed

lemma depKey_pairList_empty: "depKey (pairList g) = [] \<longleftrightarrow> pairList g = []"
proof
  assume d: "depKey (pairList g) = []"
  show "pairList g = []"
  proof (rule ccontr)
    assume ne: "pairList g \<noteq> []"
    then have "hd (pairList g) \<in> set (allPairs g)"
      by (simp add: pairList_allPairs)
    then have "hd (map key_p (pairList g)) \<noteq> []"
      using ne by (simp add: hd_map allPairs_key_nonempty)
    with ne have "join '','' (map key_p (pairList g)) \<noteq> []"
      by (intro join_nonempty) simp_all
    with d show False by (simp add: depKey_def)
  qed
next
  assume "pairList g = []"
  then show "depKey (pairList g) = []" by (simp add: depKey_def)
qed

lemma older_cancelled_iff:
  "list_all cancelled (butlast xs) \<longleftrightarrow> (\<forall>g. g + 1 < length xs \<longrightarrow> cancelled (xs ! g))"
  by (auto simp: list_all_length nth_butlast)

lemma cleanup_fields:
  "effects (cleanup s) = (effects s)[length (effects s) - 1 := (effects s ! (length (effects s) - 1))\<lparr>cancelled := True\<rparr>]"
  "pairs (cleanup s) = pairs s" "deps (cleanup s) = deps s" "selected (cleanup s) = selected s"
  "calls (cleanup s) = calls s"
  by (simp_all add: cleanup_def Let_def)

lemma runEffect_fields:
  "selected (runEffect pl s) = selected s" "deps (runEffect pl s) = deps s"
  "length (effects (runEffect pl s)) = Suc (length (effects s))"
  "butlast (effects (runEffect pl s)) = effects s"
  "pairs (runEffect [] s) = Map.empty" "resumed (last (effects (runEffect [] s)))"
  "calls (runEffect [] s) = calls s"
  "effects (runEffect pl s) \<noteq> []"
  by (simp_all add: runEffect_def)

lemma addItem_fields:
  "effects (addItem i s) = effects s" "pairs (addItem i s) = pairs s" "deps (addItem i s) = deps s"
  "calls (addItem i s) = calls s"
  by (simp_all add: addItem_def)

lemma removeItem_fields:
  "effects (removeItem x s) = effects s" "pairs (removeItem x s) = pairs s" "deps (removeItem x s) = deps s"
  "calls (removeItem x s) = calls s"
  by (simp_all add: removeItem_def)

lemma lookupSettles_fields:
  "pairs (lookupSettles g k fr s) = pairs s" "deps (lookupSettles g k fr s) = deps s"
  "selected (lookupSettles g k fr s) = selected s" "calls (lookupSettles g k fr s) = calls s"
  "length (effects (lookupSettles g k fr s)) = length (effects s)"
  by (simp_all add: lookupSettles_def Let_def)

lemma lookupSettles_nth:
  "n < length (effects s) \<Longrightarrow>
     cancelled (effects (lookupSettles g k fr s) ! n) = cancelled (effects s ! n)
     \<and> resumed (effects (lookupSettles g k fr s) ! n) = resumed (effects s ! n)
     \<and> e_pairList (effects (lookupSettles g k fr s) ! n) = e_pairList (effects s ! n)"
  by (simp add: lookupSettles_def Let_def nth_list_update)

lemma resume_fields:
  "deps (resume g s) = deps s" "selected (resume g s) = selected s" "calls (resume g s) = calls s"
  "length (effects (resume g s)) = length (effects s)"
  by (simp_all add: resume_def Let_def)

lemma resume_nth:
  "n < length (effects s) \<Longrightarrow>
     cancelled (effects (resume g s) ! n) = cancelled (effects s ! n)
     \<and> (resumed (effects s ! n) \<longrightarrow> resumed (effects (resume g s) ! n))
     \<and> e_pairList (effects (resume g s) ! n) = e_pairList (effects s ! n)"
  by (simp add: resume_def Let_def nth_list_update)

lemma resume_pairs_cancelled:
  "g < length (effects s) \<Longrightarrow> cancelled (effects s ! g) \<Longrightarrow> pairs (resume g s) = pairs s"
  by (simp add: resume_def Let_def)

lemma resume_pairs_resumed:
  "g < length (effects s) \<Longrightarrow> resumed (effects s ! g) \<Longrightarrow> pairs (resume g s) = pairs s"
  by (simp add: resume_def Let_def)

lemma resume_out_of_range: "\<not> g < length (effects s) \<Longrightarrow> resume g s = s"
  by (simp add: resume_def)


lemma invariant_mount: "invariant lc (mount lc)"
  by (simp add: mount_def initial_def gridItems_def array_sort_def pairList_allPairs depKey_def
      runEffect_def invariant_def)

lemma invariant_render:
  assumes "effects s \<noteq> []" "list_all cancelled (butlast (effects s))"
    and "deps s = [] \<longrightarrow> pairs s = Map.empty \<and> resumed (last (effects s))"
  shows "invariant lc (render lc s)"
proof -
  define pl where "pl = pairList (gridItems lc (selected s))"
  show ?thesis
  proof (cases "depKey pl = deps s")
    case True
    then have "render lc s = s"
      by (simp add: render_def pl_def Let_def)
    with True assms show ?thesis
      by (simp add: invariant_def pl_def)
  next
    case False
    then have r: "render lc s = runEffect pl ((cleanup s)\<lparr>deps := depKey pl\<rparr>)"
      by (simp add: render_def pl_def Let_def)
    let ?n = "length (effects s) - 1"
    have older: "list_all cancelled (effects ((cleanup s)\<lparr>deps := depKey pl\<rparr>))"
      unfolding list_all_length
    proof (intro allI impI)
      fix n assume "n < length (effects ((cleanup s)\<lparr>deps := depKey pl\<rparr>))"
      then have n: "n < length (effects s)"
        by (simp add: cleanup_fields)
      show "cancelled (effects ((cleanup s)\<lparr>deps := depKey pl\<rparr>) ! n)"
      proof (cases "n = ?n")
        case True
        with n show ?thesis
          by (simp add: cleanup_fields)
      next
        case False
        with n have "n + 1 < length (effects s)" by simp
        with assms(2) have "cancelled (effects s ! n)"
          by (simp add: older_cancelled_iff)
        with False n show ?thesis
          by (simp add: cleanup_fields)
      qed
    qed
    have last: "pairs (render lc s) = Map.empty \<and> resumed (last (effects (render lc s)))"
      if "depKey pl = []"
    proof -
      from that have "pl = []"
        by (simp add: pl_def depKey_pairList_empty)
      then show ?thesis
        by (simp add: r runEffect_fields)
    qed
    from older last show ?thesis
      by (simp add: invariant_def r runEffect_fields cleanup_fields pl_def)
  qed
qed

lemma invariant_lookupSettles:
  assumes "invariant lc s"
  shows "invariant lc (lookupSettles g k fr s)"
proof -
  let ?s' = "lookupSettles g k fr s"
  from assms have ne: "effects s \<noteq> []"
    by (simp add: invariant_def)
  then have ne': "effects ?s' \<noteq> []"
    using lookupSettles_fields(5) [of g k fr s] by (metis length_0_conv)
  from assms have "\<forall>n. n + 1 < length (effects s) \<longrightarrow> cancelled (effects s ! n)"
    by (simp add: invariant_def older_cancelled_iff)
  then have older: "list_all cancelled (butlast (effects ?s'))"
    by (simp add: older_cancelled_iff lookupSettles_fields lookupSettles_nth)
  from ne have "length (effects s) - 1 < length (effects s)"
    by simp
  then have "resumed (effects ?s' ! (length (effects s) - 1)) = resumed (effects s ! (length (effects s) - 1))"
    by (simp add: lookupSettles_nth)
  with ne ne' have "resumed (last (effects ?s')) = resumed (last (effects s))"
    by (simp add: last_conv_nth lookupSettles_fields)
  with assms ne' older show ?thesis
    by (simp add: invariant_def lookupSettles_fields)
qed

lemma invariant_resume:
  assumes "invariant lc s"
  shows "invariant lc (resume g s)"
proof (cases "g < length (effects s)")
  case False
  with assms show ?thesis
    by (simp add: resume_out_of_range)
next
  case True
  let ?s' = "resume g s"
  let ?n = "length (effects s) - 1"
  from assms have ne: "effects s \<noteq> []"
    by (simp add: invariant_def)
  then have ne': "effects ?s' \<noteq> []"
    using resume_fields(4) [of g s] by (metis length_0_conv)
  from assms have old: "\<forall>n. n + 1 < length (effects s) \<longrightarrow> cancelled (effects s ! n)"
    by (simp add: invariant_def older_cancelled_iff)
  then have older: "list_all cancelled (butlast (effects ?s'))"
    by (simp add: older_cancelled_iff resume_fields resume_nth)
  have empty: "pairs ?s' = Map.empty \<and> resumed (last (effects ?s'))" if d: "deps s = []"
  proof -
    from assms d have p: "pairs s = Map.empty" and r: "resumed (last (effects s))"
      by (simp_all add: invariant_def)
    from r ne have rn: "resumed (effects s ! ?n)"
      by (simp add: last_conv_nth)
    have "pairs ?s' = pairs s"
    proof (cases "g = ?n")
      case True
      with rn \<open>g < length (effects s)\<close> show ?thesis
        by (simp add: resume_pairs_resumed)
    next
      case False
      with \<open>g < length (effects s)\<close> have "g + 1 < length (effects s)" by simp
      with old have "cancelled (effects s ! g)" by simp
      with \<open>g < length (effects s)\<close> show ?thesis
        by (simp add: resume_pairs_cancelled)
    qed
    moreover from ne have "?n < length (effects s)" by simp
    with rn have "resumed (effects ?s' ! ?n)"
      by (simp add: resume_nth)
    with ne' have "resumed (last (effects ?s'))"
      by (simp add: last_conv_nth resume_fields)
    ultimately show ?thesis using p by simp
  qed
  from assms ne' older empty show ?thesis
    by (simp add: invariant_def resume_fields)
qed

lemma invariant_step: "invariant lc s \<Longrightarrow> invariant lc (step lc s ev)"
proof (cases ev)
  case (AddItem i)
  assume "invariant lc s"
  then show ?thesis
    unfolding AddItem step.simps
    by (intro invariant_render) (simp_all add: invariant_def addItem_fields split: if_splits)
next
  case (RemoveItem x)
  assume "invariant lc s"
  then show ?thesis
    unfolding RemoveItem step.simps
    by (intro invariant_render) (simp_all add: invariant_def removeItem_fields split: if_splits)
next
  case (LookupSettles g k fr)
  assume "invariant lc s"
  then show ?thesis
    by (simp add: LookupSettles invariant_lookupSettles)
next
  case (Resume g)
  assume "invariant lc s"
  then show ?thesis
    by (simp add: Resume invariant_resume)
qed

lemma invariant_run: "invariant lc s \<Longrightarrow> invariant lc (run lc s evs)"
  unfolding run_def by (induction evs arbitrary: s) (simp_all add: invariant_step)

lemma invariant_reachable: "invariant lc (run lc (mount lc) evs)"
  by (simp add: invariant_run invariant_mount)


section \<open>Claims about the refresh coordinator\<close>

lemma run_append: "run lc s (xs @ ys) = run lc (run lc s xs) ys"
  by (simp add: run_def)

lemma run_Cons: "run lc s (ev # evs) = run lc (step lc s ev) evs"
  by (simp add: run_def)

lemma run_Nil: "run lc s [] = s"
  by (simp add: run_def)

lemma stale_step:
  assumes "invariant lc s" "staleEvent (current s) ev"
  shows "pairs (step lc s ev) = pairs s \<and> current (step lc s ev) = current s"
proof (cases ev)
  case (LookupSettles g k fr)
  then show ?thesis
    by (simp add: lookupSettles_fields current_def)
next
  case (Resume g)
  with assms(2) have g: "g + 1 < length (effects s)"
    by (simp add: current_def)
  with assms(1) have "cancelled (effects s ! g)"
    by (simp add: invariant_def older_cancelled_iff)
  with g Resume show ?thesis
    by (simp add: resume_pairs_cancelled resume_fields current_def)
qed (use assms(2) in simp_all)

lemma stale_run:
  "invariant lc s \<Longrightarrow> list_all (staleEvent (current s)) late \<Longrightarrow> pairs (run lc s late) = pairs s"
proof (induction late arbitrary: s)
  case Nil
  show ?case by (simp add: run_Nil)
next
  case (Cons ev late)
  from Cons.prems have st: "pairs (step lc s ev) = pairs s" "current (step lc s ev) = current s"
    using stale_step [of lc s ev] by simp_all
  from Cons.prems have "invariant lc (step lc s ev)"
    by (simp add: invariant_step)
  with Cons.prems st have "pairs (run lc (step lc s ev) late) = pairs (step lc s ev)"
    by (intro Cons.IH) simp_all
  with st show ?case by (simp add: run_Cons)
qed

text \<open>
  Claim C2: in every state the component can reach, every generation before the
  latest is cancelled, and whatever lookups and continuations of those abandoned
  generations arrive from then on, in whatever number and order, the cache stays as it
  is: none of their results is merged.
\<close>

theorem stale_generation_never_merged:
  assumes "s = run lc (mount lc) evs"
    and "list_all (staleEvent (current s)) late"
  shows "pairs (run lc s late) = pairs s \<and> list_all cancelled (take (current s) (effects s))"
proof -
  from assms(1) have inv: "invariant lc s"
    by (simp add: invariant_reachable)
  then have "list_all cancelled (take (current s) (effects s))"
    by (simp add: invariant_def current_def butlast_conv_take)
  with inv assms(2) show ?thesis
    by (simp add: stale_run)
qed

theorem stale_generation_never_merged_witness:
  "current (run ordinalCompare (mount ordinalCompare) [AddItem warfarin, AddItem aspirin, AddItem simvastatin]) = 2
   \<and> pairs (run ordinalCompare
        (run ordinalCompare (mount ordinalCompare) [AddItem warfarin, AddItem aspirin, AddItem simvastatin])
        [LookupSettles 1 0 (Response 200 (Parsed majorRecord)), Resume 1])
     = pairs (run ordinalCompare (mount ordinalCompare) [AddItem warfarin, AddItem aspirin, AddItem simvastatin])
   \<and> pairs (run ordinalCompare (mount ordinalCompare) [AddItem warfarin, AddItem aspirin, AddItem simvastatin])
        ''1191|11289'' = None"
proof -
  let ?s = "run ordinalCompare (mount ordinalCompare) [AddItem warfarin, AddItem aspirin, AddItem simvastatin]"
  have c: "current ?s = 2"
    by code_simp
  have n: "pairs ?s ''1191|11289'' = None"
    by code_simp
  have l: "list_all (staleEvent (current ?s)) [LookupSettles 1 0 (Response 200 (Parsed majorRecord)), Resume 1]"
    by (simp add: c)
  from stale_generation_never_merged [OF refl l] have
    "pairs (run ordinalCompare ?s [LookupSettles 1 0 (Response 200 (Parsed majorRecord)), Resume 1]) = pairs ?s"
    by (rule conjunct1)
  with c n show ?thesis
    by (intro conjI)
qed

lemma selected_render: "selected (render lc s) = selected s"
  by (simp add: render_def Let_def runEffect_fields cleanup_fields)

lemma calls_render_empty: "pairList (gridItems lc (selected s)) = [] \<Longrightarrow> calls (render lc s) = calls s"
  by (simp add: render_def Let_def runEffect_fields cleanup_fields)

lemma network_step:
  "isNetwork ev \<Longrightarrow> selected (step lc s ev) = selected s \<and> calls (step lc s ev) = calls s"
  by (cases ev) (simp_all add: lookupSettles_fields resume_fields)

lemma network_run:
  "list_all isNetwork late \<Longrightarrow> selected (run lc s late) = selected s \<and> calls (run lc s late) = calls s"
  by (induction late arbitrary: s) (simp_all add: run_Nil run_Cons network_step)

lemma empty_pairList_cache:
  assumes "invariant lc s" "pairList (gridItems lc (selected s)) = []"
  shows "pairs s = Map.empty"
proof -
  from assms have "deps s = []"
    by (simp add: invariant_def depKey_def)
  with assms(1) show ?thesis
    by (simp add: invariant_def)
qed

text \<open>
  Claim C6: whenever a step of the component leaves the pair list empty, the cache is
  empty right after that step, the step has called the Interaction Client for nothing,
  and whatever lookups and continuations arrive afterwards, the cache stays empty and
  no call is made.
\<close>

theorem cache_cleared_on_empty_pair_list:
  assumes "s = run lc (mount lc) evs"
    and "pairList (gridItems lc (selected (step lc s ev))) = []"
    and "list_all isNetwork late"
  shows "pairs (step lc s ev) = Map.empty
    \<and> calls (step lc s ev) = calls s
    \<and> pairs (run lc (step lc s ev) late) = Map.empty
    \<and> calls (run lc (step lc s ev) late) = calls s"
proof -
  let ?s' = "step lc s ev"
  from assms(1) have inv: "invariant lc ?s'"
    by (simp add: invariant_reachable invariant_step)
  from inv assms(2) have p: "pairs ?s' = Map.empty"
    by (rule empty_pairList_cache)
  have c: "calls ?s' = calls s"
  proof (cases ev)
    case (AddItem i)
    with assms(2) have "pairList (gridItems lc (selected (addItem i s))) = []"
      by (simp add: selected_render)
    with AddItem show ?thesis
      by (simp add: calls_render_empty addItem_fields)
  next
    case (RemoveItem x)
    with assms(2) have "pairList (gridItems lc (selected (removeItem x s))) = []"
      by (simp add: selected_render)
    with RemoveItem show ?thesis
      by (simp add: calls_render_empty removeItem_fields)
  next
    case (LookupSettles g k fr)
    then show ?thesis by (simp add: lookupSettles_fields)
  next
    case (Resume g)
    then show ?thesis by (simp add: resume_fields)
  qed
  from assms(3) have n: "selected (run lc ?s' late) = selected ?s'" "calls (run lc ?s' late) = calls ?s'"
    by (simp_all add: network_run)
  from inv have "invariant lc (run lc ?s' late)"
    by (rule invariant_run)
  with n(1) assms(2) have "pairs (run lc ?s' late) = Map.empty"
    by (intro empty_pairList_cache) simp_all
  with p c n(2) show ?thesis by simp
qed

theorem cache_cleared_on_empty_pair_list_witness:
  "pairList (gridItems ordinalCompare (selected (step ordinalCompare
       (run ordinalCompare (mount ordinalCompare) [AddItem warfarin, AddItem aspirin])
       (RemoveItem ''1191'')))) = []
   \<and> pairs (run ordinalCompare
        (step ordinalCompare
          (run ordinalCompare (mount ordinalCompare) [AddItem warfarin, AddItem aspirin])
          (RemoveItem ''1191''))
        [LookupSettles 1 0 (Response 200 (Parsed majorRecord)), Resume 1]) = Map.empty
   \<and> calls (run ordinalCompare
        (step ordinalCompare
          (run ordinalCompare (mount ordinalCompare) [AddItem warfarin, AddItem aspirin])
          (RemoveItem ''1191''))
        [LookupSettles 1 0 (Response 200 (Parsed majorRecord)), Resume 1])
       = [(''Aspirin'', ''Warfarin'')]"
proof -
  let ?s = "run ordinalCompare (mount ordinalCompare) [AddItem warfarin, AddItem aspirin]"
  let ?late = "[LookupSettles 1 0 (Response 200 (Parsed majorRecord)), Resume 1]"
  have e: "pairList (gridItems ordinalCompare (selected (step ordinalCompare ?s (RemoveItem ''1191'')))) = []"
    by code_simp
  have c: "calls ?s = [(''Aspirin'', ''Warfarin'')]"
    by code_simp
  have l: "list_all isNetwork ?late"
    by simp
  from cache_cleared_on_empty_pair_list [OF refl e l] have
    "pairs (run ordinalCompare (step ordinalCompare ?s (RemoveItem ''1191'')) ?late) = Map.empty"
    "calls (run ordinalCompare (step ordinalCompare ?s (RemoveItem ''1191'')) ?late) = calls ?s"
    by blast+
  with e c show ?thesis
    by (simp only: simp_thms)
qed


lemma fold_upd_map_of:
  "fold (\<lambda>kv m. m(fst kv \<mapsto> snd kv)) es m k
     = (case map_of (rev es) k of None \<Rightarrow> m k | Some v \<Rightarrow> Some v)"
proof (induction es arbitrary: m)
  case Nil
  show ?case by simp
next
  case (Cons kv es)
  have "fold (\<lambda>kv m. m(fst kv \<mapsto> snd kv)) (kv # es) m k
      = fold (\<lambda>kv m. m(fst kv \<mapsto> snd kv)) es (m(fst kv \<mapsto> snd kv)) k"
    by (simp only: fold_simps o_apply)
  also have "\<dots> = (case map_of (rev es) k of None \<Rightarrow> (m(fst kv \<mapsto> snd kv)) k | Some v \<Rightarrow> Some v)"
    by (rule Cons.IH)
  also have "\<dots> = (case map_of (rev (kv # es)) k of None \<Rightarrow> m k | Some v \<Rightarrow> Some v)"
    by (cases kv) (simp add: map_add_def split: option.split)
  finally show ?case .
qed

lemma fromEntries_map_of: "fromEntries es = map_of (rev es)"
  by (rule ext) (simp add: fromEntries_def fold_upd_map_of split: option.split)

lemma fromEntries_nth:
  assumes "distinct (map fst es)" "j < length es"
  shows "fromEntries es (fst (es ! j)) = Some (snd (es ! j))"
proof -
  from assms(2) have "es ! j \<in> set (rev es)"
    by simp
  then have "(fst (es ! j), snd (es ! j)) \<in> set (rev es)"
    by simp
  moreover from assms(1) have "distinct (map fst (rev es))"
    by (simp add: rev_map [symmetric])
  ultimately show ?thesis
    unfolding fromEntries_map_of by (rule map_of_is_SomeI [rotated])
qed

lemma fst_lookupEntry: "fst (lookupEntry p fr) = key_p p"
  by (simp add: lookupEntry_def split: sum.split)

lemma snd_lookupEntry:
  "snd (lookupEntry p fr) = (case apiInteraction fr of Inl e \<Rightarrow> None | Inr r \<Rightarrow> r)"
  by (simp add: lookupEntry_def split: sum.split)

lemma slotsOf_empty: "slotsOf pl frs {} = replicate (length pl) None"
  by (simp add: slotsOf_def map_replicate_const)

lemma slotsOf_full:
  "{0..<length pl} \<subseteq> D \<Longrightarrow> slotsOf pl frs D = map (\<lambda>k. Some (lookupEntry (pl ! k) (frs ! k))) [0..<length pl]"
  by (auto simp: slotsOf_def)

lemma slotsOf_update:
  assumes "k < length pl"
  shows "(slotsOf pl frs D)[k := Some (lookupEntry (pl ! k) (frs ! k))] = slotsOf pl frs (insert k D)"
  using assms by (intro nth_equalityI) (auto simp: slotsOf_def nth_list_update)

lemma slotsOf_nth:
  "k < length pl \<Longrightarrow> slotsOf pl frs D ! k = (if k \<in> D then Some (lookupEntry (pl ! k) (frs ! k)) else None)"
  by (simp add: slotsOf_def)

lemma length_slotsOf: "length (slotsOf pl frs D) = length pl"
  by (simp add: slotsOf_def)

lemma lookupSettles_slot:
  assumes "g < length (effects s)" "e_pairList (effects s ! g) = pl"
    and "settled (effects s ! g) = slotsOf pl frs D" "k < length pl"
  shows "effects (lookupSettles g k (frs ! k) s) ! g = (effects s ! g)\<lparr>settled := slotsOf pl frs (insert k D)\<rparr>"
proof (cases "k \<in> D")
  case True
  with assms have "lookupSettles g k (frs ! k) s = s"
    by (simp add: lookupSettles_def slotsOf_nth length_slotsOf)
  moreover from True have "insert k D = D" by auto
  ultimately show ?thesis using assms(3) by simp
next
  case False
  with assms show ?thesis
    by (simp add: lookupSettles_def Let_def slotsOf_nth length_slotsOf slotsOf_update)
qed

lemma settleEvents_slots:
  assumes "g < length (effects s)" "e_pairList (effects s ! g) = pl"
    and "settled (effects s ! g) = slotsOf pl frs D" "set order \<subseteq> {0..<length pl}"
  shows "effects (run lc s (settleEvents g order frs)) ! g
           = (effects s ! g)\<lparr>settled := slotsOf pl frs (D \<union> set order)\<rparr>
       \<and> length (effects (run lc s (settleEvents g order frs))) = length (effects s)
       \<and> pairs (run lc s (settleEvents g order frs)) = pairs s
       \<and> calls (run lc s (settleEvents g order frs)) = calls s"
  using assms
proof (induction order arbitrary: s D)
  case Nil
  then show ?case by (simp add: settleEvents_def run_Nil)
next
  case (Cons k order)
  let ?s' = "lookupSettles g k (frs ! k) s"
  from Cons.prems have k: "k < length pl" by simp
  from Cons.prems k have slot: "effects ?s' ! g = (effects s ! g)\<lparr>settled := slotsOf pl frs (insert k D)\<rparr>"
    by (intro lookupSettles_slot) simp_all
  have len: "length (effects ?s') = length (effects s)"
    by (simp add: lookupSettles_fields)
  from Cons.prems slot len
  have "effects (run lc ?s' (settleEvents g order frs)) ! g
           = (effects ?s' ! g)\<lparr>settled := slotsOf pl frs (insert k D \<union> set order)\<rparr>
       \<and> length (effects (run lc ?s' (settleEvents g order frs))) = length (effects ?s')
       \<and> pairs (run lc ?s' (settleEvents g order frs)) = pairs ?s'
       \<and> calls (run lc ?s' (settleEvents g order frs)) = calls ?s'"
    by (intro Cons.IH) simp_all
  with slot len show ?case
    by (simp add: settleEvents_def run_Cons lookupSettles_fields)
qed


lemma resume_merges:
  assumes "g < length (effects s)" "\<not> cancelled (effects s ! g)" "\<not> resumed (effects s ! g)"
    and "settled (effects s ! g) = map Some es"
  shows "pairs (resume g s) = fromEntries es"
proof -
  have "List.map_filter (\<lambda>r. r) (map Some es) = es"
    by (induction es) (simp_all add: map_filter_simps)
  with assms show ?thesis
    by (simp add: resume_def Let_def list_all_iff)
qed

lemma length_entriesOf: "length frs = length pl \<Longrightarrow> length (entriesOf pl frs) = length pl"
  by (simp add: entriesOf_def)

lemma entriesOf_nth:
  "length frs = length pl \<Longrightarrow> k < length pl \<Longrightarrow> entriesOf pl frs ! k = lookupEntry (pl ! k) (frs ! k)"
  by (simp add: entriesOf_def)

lemma entriesOf_indexed:
  "length frs = length pl \<Longrightarrow> map (\<lambda>k. lookupEntry (pl ! k) (frs ! k)) [0..<length pl] = entriesOf pl frs"
  by (intro nth_equalityI) (simp_all add: entriesOf_def)

lemma entriesOf_keys: "length frs = length pl \<Longrightarrow> map fst (entriesOf pl frs) = map key_p pl"
  by (intro nth_equalityI) (simp_all add: entriesOf_def fst_lookupEntry)

lemma entriesOf_update:
  assumes "length frs = length pl"
  shows "entriesOf pl (frs[i := fr]) = (entriesOf pl frs)[i := lookupEntry (pl ! i) fr]"
proof (intro nth_equalityI)
  show "length (entriesOf pl (frs[i := fr])) = length ((entriesOf pl frs)[i := lookupEntry (pl ! i) fr])"
    using assms by (simp add: entriesOf_def)
next
  fix n assume "n < length (entriesOf pl (frs[i := fr]))"
  with assms have n: "n < length pl"
    by (simp add: entriesOf_def)
  with assms have "entriesOf pl (frs[i := fr]) ! n = lookupEntry (pl ! n) (frs[i := fr] ! n)"
    by (simp add: entriesOf_nth)
  moreover from assms n have "(entriesOf pl frs)[i := lookupEntry (pl ! i) fr] ! n
      = (if n = i then lookupEntry (pl ! i) fr else lookupEntry (pl ! n) (frs ! n))"
    by (simp add: nth_list_update length_entriesOf entriesOf_nth)
  ultimately show "entriesOf pl (frs[i := fr]) ! n = (entriesOf pl frs)[i := lookupEntry (pl ! i) fr] ! n"
    using assms n by (simp add: nth_list_update)
qed

lemma lookupEntry_failed: "apiInteraction fr = Inl e \<Longrightarrow> lookupEntry p fr = (key_p p, None)"
  by (simp add: lookupEntry_def)

lemma lookupEntry_no_record: "lookupEntry p (Response 200 (Parsed (JObj []))) = (key_p p, None)"
  by (simp add: lookupEntry_def apiInteraction_def ok_def hasSeverity_def)

lemma map_of_filter_key: "map_of xs k = map_of (filter (\<lambda>e. fst e = k) xs) k"
  by (induction xs) auto

lemma filter_update_other:
  "\<not> P x \<Longrightarrow> i < length es \<Longrightarrow> \<not> P (es ! i) \<Longrightarrow> filter P (es[i := x]) = filter P es"
proof (induction es arbitrary: i)
  case Nil
  then show ?case by simp
next
  case (Cons e es)
  then show ?case by (cases i) auto
qed

lemma fromEntries_update_other:
  assumes "i < length es" "k \<noteq> fst (es ! i)"
  shows "fromEntries (es[i := (fst (es ! i), v)]) k = fromEntries es k"
proof -
  have "filter (\<lambda>e. fst e = k) (es[i := (fst (es ! i), v)]) = filter (\<lambda>e. fst e = k) es"
    using assms by (intro filter_update_other) auto
  then have "filter (\<lambda>e. fst e = k) (rev (es[i := (fst (es ! i), v)])) = filter (\<lambda>e. fst e = k) (rev es)"
    by (simp add: rev_filter [symmetric])
  then show ?thesis
    unfolding fromEntries_map_of
    by (metis map_of_filter_key)
qed

lemma fromEntries_last_of_key:
  assumes "i < length es" "\<And>j. i < j \<Longrightarrow> j < length es \<Longrightarrow> fst (es ! j) \<noteq> fst (es ! i)"
  shows "fromEntries es (fst (es ! i)) = Some (snd (es ! i))"
proof -
  let ?k = "fst (es ! i)"
  from assms(1) have es: "es = take i es @ es ! i # drop (Suc i) es"
    by (simp add: id_take_nth_drop [symmetric])
  have "?k \<notin> fst ` set (drop (Suc i) es)"
  proof
    assume "?k \<in> fst ` set (drop (Suc i) es)"
    then obtain e where "e \<in> set (drop (Suc i) es)" "fst e = ?k"
      by auto
    then obtain n where "n < length (drop (Suc i) es)" "drop (Suc i) es ! n = e"
      by (auto simp: in_set_conv_nth)
    with \<open>fst e = ?k\<close> have "Suc i + n < length es" "fst (es ! (Suc i + n)) = ?k"
      by auto
    with assms(2) [of "Suc i + n"] show False
      by simp
  qed
  then have none: "map_of (rev (drop (Suc i) es)) ?k = None"
    by (simp add: map_of_eq_None_iff)
  have "map_of (rev es) ?k = map_of (rev (drop (Suc i) es) @ es ! i # rev (take i es)) ?k"
    by (subst es) simp
  also have "\<dots> = Some (snd (es ! i))"
    using none by (cases "es ! i") (simp add: map_add_def)
  finally show ?thesis
    by (simp add: fromEntries_map_of)
qed

lemma generation_result:
  assumes "pl \<noteq> []" "length frs = length pl" "set order = {0..<length pl}"
  shows "pairs (generation lc pl order frs s) = fromEntries (entriesOf pl frs)
       \<and> calls (generation lc pl order frs s) = calls s @ map (\<lambda>p. (display (a_p p), display (b_p p))) pl"
proof -
  let ?g = "length (effects s)"
  let ?s0 = "runEffect pl s"
  let ?s1 = "run lc ?s0 (settleEvents ?g order frs)"
  from assms(1) have e0: "effects ?s0 ! ?g
      = \<lparr>e_pairList = pl, cancelled = False, settled = replicate (length pl) None, resumed = False\<rparr>"
    and g0: "?g < length (effects ?s0)"
    and c0: "calls ?s0 = calls s @ map (\<lambda>p. (display (a_p p), display (b_p p))) pl"
    by (simp_all add: runEffect_def)
  from e0 have "e_pairList (effects ?s0 ! ?g) = pl" "settled (effects ?s0 ! ?g) = slotsOf pl frs {}"
    by (simp_all add: slotsOf_empty)
  with g0 assms(3)
  have s1: "effects ?s1 ! ?g = (effects ?s0 ! ?g)\<lparr>settled := slotsOf pl frs ({} \<union> set order)\<rparr>"
    and len: "length (effects ?s1) = length (effects ?s0)"
    and c1: "calls ?s1 = calls ?s0"
    using settleEvents_slots [of ?g ?s0 pl frs "{}" order lc] by simp_all
  from assms(2,3) have "slotsOf pl frs ({} \<union> set order) = map Some (entriesOf pl frs)"
    by (simp add: slotsOf_full comp_def entriesOf_indexed [symmetric])
  with s1 e0 have slots: "settled (effects ?s1 ! ?g) = map Some (entriesOf pl frs)"
    and flags: "\<not> cancelled (effects ?s1 ! ?g)" "\<not> resumed (effects ?s1 ! ?g)"
    by simp_all
  from g0 len have "?g < length (effects ?s1)"
    by simp
  from this flags slots have "pairs (resume ?g ?s1) = fromEntries (entriesOf pl frs)"
    by (rule resume_merges)
  moreover have "generation lc pl order frs s = resume ?g ?s1"
    by (simp add: generation_def run_append run_Cons run_Nil)
  ultimately show ?thesis
    using c0 c1 by (simp add: resume_fields)
qed

text \<open>
  Claim C5: let the effect run on a non-empty pair list \<open>pl\<close> from any state, let its
  lookups settle in any order, the lookup of pair \<open>i\<close> failing and the others ending in
  any way, and let the continuation run. Then one call was made for every pair, failed
  or not. The cache is \<open>Object.fromEntries\<close> of one entry for every pair, that of pair
  \<open>i\<close> being its key with \<open>null\<close> and that of every other pair its own result. The
  cache as a whole is the one that a "no record" answer to lookup \<open>i\<close> would have left,
  and however lookup \<open>i\<close> ends, nothing changes under any key but that of pair \<open>i\<close>.
  Read under the key of pair \<open>i\<close> the cache gives \<open>null\<close>, provided no later pair of the
  list has the same key; where the keys are distinct, it gives under the key of every
  pair the result of that pair's own lookup.
\<close>

theorem failed_lookup_is_null_for_its_pair_only:
  assumes "pl \<noteq> []" and "length frs = length pl" and "set order = {0..<length pl}"
    and "i < length pl" and "apiInteraction (frs ! i) = Inl err"
  shows "calls (generation lc pl order frs s)
           = calls s @ map (\<lambda>p. (display (a_p p), display (b_p p))) pl
    \<and> pairs (generation lc pl order frs s) = fromEntries (entriesOf pl frs)
    \<and> entriesOf pl frs ! i = (key_p (pl ! i), None)
    \<and> (\<forall>j<length pl. entriesOf pl frs ! j = lookupEntry (pl ! j) (frs ! j))
    \<and> pairs (generation lc pl order frs s)
         = pairs (generation lc pl order (frs[i := Response 200 (Parsed (JObj []))]) s)
    \<and> (\<forall>fr' k. k \<noteq> key_p (pl ! i) \<longrightarrow>
          pairs (generation lc pl order (frs[i := fr']) s) k = pairs (generation lc pl order frs s) k)
    \<and> ((\<forall>j. i < j \<and> j < length pl \<longrightarrow> key_p (pl ! j) \<noteq> key_p (pl ! i)) \<longrightarrow>
          pairs (generation lc pl order frs s) (key_p (pl ! i)) = Some None)
    \<and> (distinct (map key_p pl) \<longrightarrow>
          (\<forall>j<length pl. pairs (generation lc pl order frs s) (key_p (pl ! j))
                            = Some (snd (lookupEntry (pl ! j) (frs ! j)))))"
proof -
  let ?es = "entriesOf pl frs"
  note gen = generation_result [OF assms(1) _ assms(3), of _ lc s]
  from assms(2) have p: "pairs (generation lc pl order frs s) = fromEntries ?es"
    and c: "calls (generation lc pl order frs s) = calls s @ map (\<lambda>p. (display (a_p p), display (b_p p))) pl"
    using gen [of frs] by simp_all
  have p': "pairs (generation lc pl order (frs[i := fr']) s) = fromEntries (entriesOf pl (frs[i := fr']))" for fr'
    using gen [of "frs[i := fr']"] assms(2) by simp
  from assms(2,4) have len: "i < length ?es"
    by (simp add: length_entriesOf)
  from assms(2,4,5) have ei: "?es ! i = (key_p (pl ! i), None)"
    by (simp add: entriesOf_nth lookupEntry_failed)
  have each: "\<forall>j<length pl. ?es ! j = lookupEntry (pl ! j) (frs ! j)"
    using assms(2) by (simp add: entriesOf_nth)
  have upd: "entriesOf pl (frs[i := fr']) = ?es[i := (fst (?es ! i), snd (lookupEntry (pl ! i) fr'))]" for fr'
  proof -
    have "lookupEntry (pl ! i) fr' = (fst (?es ! i), snd (lookupEntry (pl ! i) fr'))"
      using ei by (simp add: prod_eq_iff fst_lookupEntry)
    with assms(2) show ?thesis
      by (simp add: entriesOf_update)
  qed
  have "?es[i := (key_p (pl ! i), None)] = ?es"
    using ei by (metis list_update_id)
  with assms(2) have "entriesOf pl (frs[i := Response 200 (Parsed (JObj []))]) = ?es"
    by (simp add: entriesOf_update lookupEntry_no_record)
  with p p' have same: "pairs (generation lc pl order frs s)
         = pairs (generation lc pl order (frs[i := Response 200 (Parsed (JObj []))]) s)"
    by simp
  have other: "pairs (generation lc pl order (frs[i := fr']) s) k = pairs (generation lc pl order frs s) k"
    if "k \<noteq> key_p (pl ! i)" for fr' k
  proof -
    from that ei have "k \<noteq> fst (?es ! i)" by simp
    with len have "fromEntries (?es[i := (fst (?es ! i), snd (lookupEntry (pl ! i) fr'))]) k = fromEntries ?es k"
      by (rule fromEntries_update_other)
    with p p' upd show ?thesis by simp
  qed
  have lastkey: "pairs (generation lc pl order frs s) (key_p (pl ! i)) = Some None"
    if "\<forall>j. i < j \<and> j < length pl \<longrightarrow> key_p (pl ! j) \<noteq> key_p (pl ! i)"
  proof -
    have "fst (?es ! j) \<noteq> fst (?es ! i)" if "i < j" "j < length ?es" for j
    proof -
      from that assms(2) have j: "j < length pl"
        by (simp add: length_entriesOf)
      with assms(2) have "fst (?es ! j) = key_p (pl ! j)"
        by (simp add: entriesOf_nth fst_lookupEntry)
      with \<open>\<forall>j. i < j \<and> j < length pl \<longrightarrow> key_p (pl ! j) \<noteq> key_p (pl ! i)\<close> that(1) j ei
      show ?thesis by simp
    qed
    with len have "fromEntries ?es (fst (?es ! i)) = Some (snd (?es ! i))"
      by (rule fromEntries_last_of_key)
    with p ei show ?thesis by simp
  qed
  have dist: "pairs (generation lc pl order frs s) (key_p (pl ! j)) = Some (snd (lookupEntry (pl ! j) (frs ! j)))"
    if "distinct (map key_p pl)" "j < length pl" for j
  proof -
    from that(1) assms(2) have "distinct (map fst ?es)"
      by (simp add: entriesOf_keys)
    moreover from that(2) assms(2) have "j < length ?es"
      by (simp add: length_entriesOf)
    ultimately have "fromEntries ?es (fst (?es ! j)) = Some (snd (?es ! j))"
      by (rule fromEntries_nth)
    with p that(2) assms(2) show ?thesis
      by (simp add: entriesOf_nth fst_lookupEntry)
  qed
  from c p ei each same other lastkey dist show ?thesis
    by blast
qed

theorem failed_lookup_is_null_for_its_pair_only_witness:
  "map key_p (pairList (gridItems ordinalCompare [warfarin, aspirin, simvastatin]))
     = [''1191|36567'', ''1191|11289'', ''36567|11289'']
   \<and> apiInteraction Rejected = Inl NetworkError
   \<and> calls (generation ordinalCompare (pairList (gridItems ordinalCompare [warfarin, aspirin, simvastatin]))
        [2, 0, 1] [Rejected, Response 200 (Parsed majorRecord), Response 200 (Parsed (JObj []))]
        (mount ordinalCompare))
      = [(''Aspirin'', ''Simvastatin''), (''Aspirin'', ''Warfarin''), (''Simvastatin'', ''Warfarin'')]
   \<and> pairs (generation ordinalCompare (pairList (gridItems ordinalCompare [warfarin, aspirin, simvastatin]))
        [2, 0, 1] [Rejected, Response 200 (Parsed majorRecord), Response 200 (Parsed (JObj []))]
        (mount ordinalCompare))
      ''1191|36567'' = Some None
   \<and> pairs (generation ordinalCompare (pairList (gridItems ordinalCompare [warfarin, aspirin, simvastatin]))
        [2, 0, 1] [Rejected, Response 200 (Parsed majorRecord), Response 200 (Parsed (JObj []))]
        (mount ordinalCompare))
      ''1191|11289'' = Some (Some majorRecord)"
proof -
  let ?pl = "pairList (gridItems ordinalCompare [warfarin, aspirin, simvastatin])"
  let ?frs = "[Rejected, Response 200 (Parsed majorRecord), Response 200 (Parsed (JObj []))]"
  let ?fin = "generation ordinalCompare ?pl [2, 0, 1] ?frs (mount ordinalCompare)"
  have k: "map key_p ?pl = [''1191|36567'', ''1191|11289'', ''36567|11289'']"
    by code_simp
  have n: "length ?pl = 3"
    by code_simp
  from n have ne: "?pl \<noteq> []"
    by auto
  have l: "length ?frs = length ?pl"
    by (simp add: n)
  have o: "set [2, 0, 1] = {0..<length ?pl}"
    unfolding n by auto
  have i: "0 < length ?pl"
    by (simp add: n)
  have a: "apiInteraction (?frs ! 0) = Inl NetworkError"
    by code_simp
  have a0: "apiInteraction Rejected = Inl NetworkError"
    by code_simp
  have d: "distinct (map key_p ?pl)"
    by (simp add: k)
  have c0: "calls (mount ordinalCompare) @ map (\<lambda>p. (display (a_p p), display (b_p p))) ?pl
      = [(''Aspirin'', ''Simvastatin''), (''Aspirin'', ''Warfarin''), (''Simvastatin'', ''Warfarin'')]"
    by code_simp
  have k0: "key_p (?pl ! 0) = ''1191|36567''" "key_p (?pl ! 1) = ''1191|11289''"
    by code_simp+
  have r1: "snd (lookupEntry (?pl ! 1) (?frs ! 1)) = Some majorRecord"
    by code_simp
  have r0: "snd (lookupEntry (?pl ! 0) (?frs ! 0)) = None"
    by code_simp
  note th = failed_lookup_is_null_for_its_pair_only [OF ne l o i a, of ordinalCompare "mount ordinalCompare"]
  from th have "calls ?fin = calls (mount ordinalCompare) @ map (\<lambda>p. (display (a_p p), display (b_p p))) ?pl"
    by (rule conjunct1)
  with c0 have c: "calls ?fin
      = [(''Aspirin'', ''Simvastatin''), (''Aspirin'', ''Warfarin''), (''Simvastatin'', ''Warfarin'')]"
    by (simp only:)
  from th d have all: "\<forall>j<length ?pl. pairs ?fin (key_p (?pl ! j)) = Some (snd (lookupEntry (?pl ! j) (?frs ! j)))"
    by blast
  from all i have "pairs ?fin (key_p (?pl ! 0)) = Some (snd (lookupEntry (?pl ! 0) (?frs ! 0)))"
    by blast
  then have p0: "pairs ?fin ''1191|36567'' = Some None"
    by (simp only: k0 r0)
  from all n have "pairs ?fin (key_p (?pl ! 1)) = Some (snd (lookupEntry (?pl ! 1) (?frs ! 1)))"
    by (metis one_less_numeral_iff semiring_norm(77))
  then have p1: "pairs ?fin ''1191|11289'' = Some (Some majorRecord)"
    by (simp only: k0 r1)
  from k a0 c p0 p1 show ?thesis
    by (intro conjI)
qed

end
